theory Spec2Isabelle
  imports Main
begin

chapter \<open>The program\<close>

section \<open>Python strings\<close>

text \<open>
  A Python \<open>str\<close> is a sequence of Unicode code points, so it is modelled as a list of
  natural numbers. \<open>str\<close> turns an ASCII literal into such a list.
\<close>

type_synonym pystr = "nat list"

definition str :: "string \<Rightarrow> pystr" where
  "str s = map of_char s"

text \<open>The placeholder of the scripts, a two-character string: U+4E0D U+660E.\<close>

definition unknown :: pystr where
  "unknown = [19981, 26126]"

text \<open>
  The code points that \<open>str.strip()\<close> and \<open>str.split()\<close> treat as whitespace
  (CPython's \<open>Py_UNICODE_ISSPACE\<close>): U+0009..U+000D, U+001C..U+0020, U+0085, U+00A0,
  U+1680, U+2000..U+200A, U+2028, U+2029, U+202F, U+205F, U+3000.
\<close>

definition is_space :: "nat \<Rightarrow> bool" where
  "is_space c \<longleftrightarrow>
     (9 \<le> c \<and> c \<le> 13) \<or> (28 \<le> c \<and> c \<le> 32) \<or> c = 133 \<or> c = 160 \<or> c = 5760 \<or>
     (8192 \<le> c \<and> c \<le> 8202) \<or> c = 8232 \<or> c = 8233 \<or> c = 8239 \<or> c = 8287 \<or> c = 12288"

definition lstrip :: "pystr \<Rightarrow> pystr" where
  "lstrip s = dropWhile is_space s"

definition rstrip :: "pystr \<Rightarrow> pystr" where
  "rstrip s = rev (dropWhile is_space (rev s))"

definition strip :: "pystr \<Rightarrow> pystr" where
  "strip s = rstrip (lstrip s)"

text \<open>\<open>s.split()\<close>: the maximal runs of non-whitespace code points, left to right.\<close>

function split_ws :: "pystr \<Rightarrow> pystr list" where
  "split_ws s =
     (case dropWhile is_space s of
        [] \<Rightarrow> []
      | c # cs \<Rightarrow> takeWhile (\<lambda>x. \<not> is_space x) (c # cs)
                  # split_ws (dropWhile (\<lambda>x. \<not> is_space x) (c # cs)))"
  by pat_completeness auto
termination
proof (relation "measure length")
  show "wf (measure length)" by simp
next
  fix s :: pystr and c cs
  assume d: "dropWhile is_space s = c # cs"
  have nsp: "\<not> is_space c"
    using d by (metis hd_dropWhile list.sel(1) list.distinct(1))
  have "length (dropWhile (\<lambda>x. \<not> is_space x) (c # cs)) \<le> length cs"
    using nsp by (simp add: length_dropWhile_le)
  also have "length cs < length (dropWhile is_space s)"
    using d by simp
  also have "\<dots> \<le> length s"
    by (rule length_dropWhile_le)
  finally show "(dropWhile (\<lambda>x. \<not> is_space x) (c # cs), s) \<in> measure length"
    by simp
qed

declare split_ws.simps [simp del]

text \<open>\<open>sep.join(parts)\<close>.\<close>

fun join :: "pystr \<Rightarrow> pystr list \<Rightarrow> pystr" where
  "join sep [] = []"
| "join sep [w] = w"
| "join sep (w # v # ws) = w @ sep @ join sep (v # ws)"

text \<open>\<open>s.split(sep)\<close> for a separator of one character: empty parts are kept.\<close>

fun split_on :: "nat \<Rightarrow> pystr \<Rightarrow> pystr list" where
  "split_on sep [] = [[]]"
| "split_on sep (c # cs) =
     (if c = sep then [] # split_on sep cs
      else (case split_on sep cs of
              [] \<Rightarrow> [[c]]
            | w # ws \<Rightarrow> (c # w) # ws))"

text \<open>
  \<open>s.lower()\<close> on the ASCII letters; code points above U+007F are left as they are
  (Python also lowers cased letters outside ASCII, which no property below relies on).
\<close>

definition lower :: "pystr \<Rightarrow> pystr" where
  "lower s = map (\<lambda>c. if 65 \<le> c \<and> c \<le> 90 then c + 32 else c) s"

text \<open>\<open>a in b\<close> for two strings: \<open>a\<close> occurs in \<open>b\<close> as a contiguous run.\<close>

fun startswith :: "pystr \<Rightarrow> pystr \<Rightarrow> bool" where
  "startswith s [] = True"
| "startswith [] (p # ps) = False"
| "startswith (c # cs) (p # ps) = (c = p \<and> startswith cs ps)"

fun contains :: "pystr \<Rightarrow> pystr \<Rightarrow> bool" where
  "contains a [] = (a = [])"
| "contains a (c # cs) = (startswith (c # cs) a \<or> contains a cs)"

section \<open>Exceptions\<close>

text \<open>
  Exceptions. A computation that may raise returns \<open>Inl\<close> of the exception or \<open>Inr\<close>
  of its value. \<open>SystemExit\<close> and \<open>KeyboardInterrupt\<close> derive from \<open>BaseException\<close>
  only; every other one is an instance of \<open>Exception\<close>, which is what a clause
  \<open>except Exception\<close> catches.
\<close>

datatype py_exception =
    FetchError | ReError | KeyError | RecursionError | OtherException pystr
  | SystemExit | KeyboardInterrupt

fun is_Exception :: "py_exception \<Rightarrow> bool" where
  "is_Exception SystemExit = False"
| "is_Exception KeyboardInterrupt = False"
| "is_Exception e = True"

definition bind :: "py_exception + 'a \<Rightarrow> ('a \<Rightarrow> py_exception + 'b) \<Rightarrow> py_exception + 'b" where
  "bind m f = (case m of Inl e \<Rightarrow> Inl e | Inr v \<Rightarrow> f v)"

section \<open>helpers.py\<close>

text \<open>
  \<open>clean_text(value)\<close>: \<open>value\<close> is \<open>None\<close> or a string. A falsy value gives the
  placeholder; otherwise the words of the stripped value are joined by single spaces, and an
  empty result gives the placeholder again.
\<close>

definition clean_text :: "pystr option \<Rightarrow> pystr" where
  "clean_text v =
     (case v of
        None \<Rightarrow> unknown
      | Some s \<Rightarrow>
          if s = [] then unknown
          else (let r = join (str '' '') (split_ws (strip s))
                in if r = [] then unknown else r))"

text \<open>
  \<open>run_regexes(text, patterns)\<close>. The regular-expression engine of the Python library is a
  parameter: \<open>search pattern text\<close> stands for \<open>re.search(pattern, text, re.IGNORECASE)\<close>,
  which raises on a pattern that does not compile, returns \<open>None\<close> when nothing matches, and
  otherwise a match object, of which the code reads \<open>group(0)\<close> and \<open>groups()\<close> (a group
  that took no part in the match is \<open>None\<close>).
\<close>

record re_match =
  group0 :: pystr
  groups :: "pystr option list"

type_synonym re_search = "pystr \<Rightarrow> pystr \<Rightarrow> py_exception + re_match option"

text \<open>The truth value of an optional string: \<open>None\<close> and \<open>""\<close> are false.\<close>

fun truthy :: "pystr option \<Rightarrow> bool" where
  "truthy None = False"
| "truthy (Some s) = (s \<noteq> [])"

fun run_regexes :: "re_search \<Rightarrow> pystr \<Rightarrow> pystr list \<Rightarrow> py_exception + pystr" where
  "run_regexes search text [] = Inr unknown"
| "run_regexes search text (pattern # patterns) =
     (case search pattern text of
        Inl e \<Rightarrow> Inl e
      | Inr None \<Rightarrow> run_regexes search text patterns
      | Inr (Some m) \<Rightarrow>
          (case filter truthy (groups m) of
             g # gs \<Rightarrow> Inr (clean_text g)
           | [] \<Rightarrow> Inr (clean_text (Some (group0 m)))))"

section \<open>kpi3\_title\_generate.py\<close>

text \<open>
  The argument of \<open>generate_title\<close> is either a dictionary from strings to strings or some
  other object. \<open>specs.get(k) if isinstance(specs, dict) else None\<close> is \<open>spec_get\<close>.
\<close>

datatype specs_arg = Dict "pystr \<rightharpoonup> pystr" | NotADict

fun spec_get :: "specs_arg \<Rightarrow> pystr \<Rightarrow> pystr option" where
  "spec_get (Dict d) k = d k"
| "spec_get NotADict k = None"

text \<open>
  \<open>generate_title\<close> returns the dictionary \<open>{"title": structured_title}\<close>; the model
  returns the value stored under its only key.
\<close>

definition generate_title :: "specs_arg \<Rightarrow> pystr" where
  "generate_title specs =
     (let brand = clean_text (spec_get specs (str ''brand''));
          model = clean_text (spec_get specs (str ''model''));
          inch = clean_text (spec_get specs (str ''inch''));
          width = clean_text (spec_get specs (str ''width''));
          holes = clean_text (spec_get specs (str ''holes''));
          pcd = clean_text (spec_get specs (str ''pcd''));
          offset = clean_text (spec_get specs (str ''offset''));
          title_parts =
            [brand, model]
            @ (if inch \<noteq> unknown then [inch] else [])
            @ (if width \<noteq> unknown then [width] else [])
            @ (if holes \<noteq> unknown then [holes @ str ''H''] else [])
            @ (if pcd \<noteq> unknown then [str ''PCD'' @ pcd] else [])
            @ (if offset \<noteq> unknown then [str ''OFFSET'' @ offset] else []);
          structured_title =
            join (str '' '') (filter (\<lambda>part. part \<noteq> [] \<and> part \<noteq> unknown) title_parts)
      in if structured_title = [] then unknown else structured_title)"

section \<open>bs4: the node tree\<close>

text \<open>
  A \<open>_Node\<close> has a name, an attribute dictionary and a list of children, each an element
  node or a string. The dictionary keeps insertion order (it is rendered in that order),
  so it is an association list with distinct keys. The \<open>parent\<close> field of a \<open>_Node\<close> is
  not part of this value: it is kept by the tree builder below as the chain of open
  elements, and by the query functions as a reference that records how a node was reached.
\<close>

type_synonym pydict = "(pystr \<times> pystr) list"

datatype node = Node (name: pystr) (attrs: pydict) (children: "child list")
  and child = Elem node | Text pystr

definition VOID_ELEMENTS :: "pystr set" where
  "VOID_ELEMENTS = set (map str
     [''area'', ''base'', ''br'', ''col'', ''embed'', ''hr'', ''img'', ''input'',
      ''link'', ''meta'', ''param'', ''source'', ''track'', ''wbr''])"

definition root_name :: pystr where
  "root_name = str ''__root__''"

text \<open>\<open>d[k] = v\<close>: a key already present keeps its place.\<close>

fun dict_set :: "pydict \<Rightarrow> pystr \<Rightarrow> pystr \<Rightarrow> pydict" where
  "dict_set [] k v = [(k, v)]"
| "dict_set ((k', v') # d) k v =
     (if k' = k then (k', v) # d else (k', v') # dict_set d k v)"

text \<open>\<open>d.get(k)\<close>.\<close>

definition dict_get :: "pydict \<Rightarrow> pystr \<Rightarrow> pystr option" where
  "dict_get d k = map_of d k"

text \<open>
  \<open>_Node.__init__\<close> builds the dictionary \<open>{key: value or "" for key, value in attrs}\<close>
  from the parser's list of pairs, whose values may be \<open>None\<close>.
\<close>

fun new_attrs :: "pydict \<Rightarrow> (pystr \<times> pystr option) list \<Rightarrow> pydict" where
  "new_attrs d [] = d"
| "new_attrs d ((key, v) # rest) =
     new_attrs (dict_set d key (case v of None \<Rightarrow> [] | Some s \<Rightarrow> s)) rest"

definition new_node :: "pystr \<Rightarrow> (pystr \<times> pystr option) list \<Rightarrow> node" where
  "new_node tag attr_list = Node tag (new_attrs [] attr_list) []"

text \<open>\<open>_Node.text_content\<close>; the loop over the children is \<open>text_children\<close>.\<close>

fun text_content :: "node \<Rightarrow> pystr" and text_children :: "child list \<Rightarrow> pystr" where
  "text_content (Node nm at cs) = text_children cs"
| "text_children [] = []"
| "text_children (Elem n # cs) = text_content n @ text_children cs"
| "text_children (Text s # cs) = s @ text_children cs"

text \<open>\<open>html.escape(value, quote=True)\<close>.\<close>

definition escape_char :: "nat \<Rightarrow> pystr" where
  "escape_char c =
     (if c = 38 then str ''&amp;''
      else if c = 60 then str ''&lt;''
      else if c = 62 then str ''&gt;''
      else if c = 34 then str ''&quot;''
      else if c = 39 then str ''&#x27;''
      else [c])"

definition html_escape :: "pystr \<Rightarrow> pystr" where
  "html_escape s = concat (map escape_char s)"

text \<open>
  \<open>_Node.render\<close> and \<open>_Node.render_contents\<close>; the loop of the latter over the children
  is \<open>render_children\<close>. Code point 34 is the double quote.
\<close>

definition render_attrs :: "pydict \<Rightarrow> pystr" where
  "render_attrs d =
     concat (map (\<lambda>(k, v). str '' '' @ k @ str ''='' @ [34] @ html_escape v @ [34]) d)"

fun render :: "node \<Rightarrow> pystr" and render_children :: "child list \<Rightarrow> pystr" where
  "render (Node nm at cs) =
     (if nm \<in> VOID_ELEMENTS then str ''<'' @ nm @ render_attrs at @ str ''>''
      else str ''<'' @ nm @ render_attrs at @ str ''>'' @ render_children cs
           @ str ''</'' @ nm @ str ''>'')"
| "render_children [] = []"
| "render_children (Elem n # cs) = render n @ render_children cs"
| "render_children (Text s # cs) = s @ render_children cs"

definition render_contents :: "node \<Rightarrow> pystr" where
  "render_contents n = render_children (children n)"

section \<open>bs4: the tree builder\<close>

text \<open>
  \<open>_HTMLTreeBuilder\<close> receives the calls of the library's \<open>HTMLParser\<close>, one per token of
  the markup. The tokenizer itself belongs to the Python library; the builder is modelled
  on the sequence of calls it makes. (With \<open>convert_charrefs=False\<close> an entity reference
  such as \<open>&lt;\<close> is reported by \<open>handle_entityref\<close>; numeric character references are
  left out of the model.)
\<close>

datatype event =
    StartTag pystr "(pystr \<times> pystr option) list"
  | StartEndTag pystr "(pystr \<times> pystr option) list"
  | EndTag pystr
  | Data pystr
  | EntityRef pystr
  | Comment pystr

text \<open>
  The state of the builder is the tree under \<open>self.root\<close> together with the cursor
  \<open>self.current\<close>. A new element is appended to the cursor and the cursor then moves into
  it, and the cursor otherwise only moves to a parent; so the elements from the cursor up to
  the root are always the last child of their parent. The state is kept as this chain:
  \<open>opened\<close> lists the open elements from \<open>self.current\<close> (first) to the child of the root
  (last), each with the children appended to it so far, and is empty when
  \<open>self.current is self.root\<close>; an open element is written into the child list of its
  parent when the cursor leaves it. The parent of the cursor is the next entry of the chain.
\<close>

record frame =
  f_name :: pystr
  f_attrs :: pydict
  f_children :: "child list"

record builder =
  opened :: "frame list"
  root :: frame

definition init_builder :: builder where
  "init_builder = \<lparr>opened = [], root = \<lparr>f_name = root_name, f_attrs = [], f_children = []\<rparr>\<rparr>"

definition node_of :: "frame \<Rightarrow> node" where
  "node_of f = Node (f_name f) (f_attrs f) (f_children f)"

definition add_child :: "child \<Rightarrow> frame \<Rightarrow> frame" where
  "add_child c f = f\<lparr>f_children := f_children f @ [c]\<rparr>"

text \<open>\<open>self.current.append(child)\<close>.\<close>

definition append_current :: "child \<Rightarrow> builder \<Rightarrow> builder" where
  "append_current c b =
     (case opened b of
        [] \<Rightarrow> b\<lparr>root := add_child c (root b)\<rparr>
      | f # fs \<Rightarrow> b\<lparr>opened := add_child c f # fs\<rparr>)"

text \<open>\<open>self.current = self.current.parent or self.root\<close>.\<close>

definition move_up :: "builder \<Rightarrow> builder" where
  "move_up b =
     (case opened b of
        [] \<Rightarrow> b
      | f # fs \<Rightarrow> append_current (Elem (node_of f)) (b\<lparr>opened := fs\<rparr>))"

definition handle_starttag :: "pystr \<Rightarrow> (pystr \<times> pystr option) list \<Rightarrow> builder \<Rightarrow> builder" where
  "handle_starttag tag attr_list b =
     (if lower tag \<notin> VOID_ELEMENTS
      then b\<lparr>opened := \<lparr>f_name = tag, f_attrs = new_attrs [] attr_list, f_children = []\<rparr> # opened b\<rparr>
      else append_current (Elem (new_node tag attr_list)) b)"

definition handle_startendtag :: "pystr \<Rightarrow> (pystr \<times> pystr option) list \<Rightarrow> builder \<Rightarrow> builder" where
  "handle_startendtag tag attr_list b = append_current (Elem (new_node tag attr_list)) b"

text \<open>
  The \<open>while\<close> loop of \<open>handle_endtag\<close>, which assigns to \<open>self.current\<close> itself, and
  then the whole handler.
\<close>

function walk_up :: "pystr \<Rightarrow> builder \<Rightarrow> builder" where
  "walk_up tag b =
     (case opened b of
        [] \<Rightarrow> b
      | f # fs \<Rightarrow> if lower (f_name f) \<noteq> tag then walk_up tag (move_up b) else b)"
  by pat_completeness auto
termination
  by (relation "measure (\<lambda>(tag, b). length (opened b))")
     (auto simp: move_up_def append_current_def split: list.splits)

declare walk_up.simps [simp del]

definition handle_endtag :: "pystr \<Rightarrow> builder \<Rightarrow> builder" where
  "handle_endtag tag b =
     (let b' = walk_up (lower tag) b
      in if opened b' \<noteq> [] then move_up b' else b')"

definition handle_data :: "pystr \<Rightarrow> builder \<Rightarrow> builder" where
  "handle_data d b = (if d \<noteq> [] then append_current (Text d) b else b)"

text \<open>
  \<open>handle_entityref\<close>: the table \<open>html.entities.name2codepoint\<close> is a parameter; 63 is
  \<open>ord("?")\<close>.
\<close>

definition handle_entityref :: "(pystr \<rightharpoonup> nat) \<Rightarrow> pystr \<Rightarrow> builder \<Rightarrow> builder" where
  "handle_entityref name2codepoint nm b =
     handle_data [case name2codepoint nm of None \<Rightarrow> 63 | Some c \<Rightarrow> c] b"

definition handle_comment :: "pystr \<Rightarrow> builder \<Rightarrow> builder" where
  "handle_comment d b = append_current (Text (str ''<!--'' @ d @ str ''-->'')) b"

fun handle :: "(pystr \<rightharpoonup> nat) \<Rightarrow> event \<Rightarrow> builder \<Rightarrow> builder" where
  "handle n2c (StartTag tag attr_list) b = handle_starttag tag attr_list b"
| "handle n2c (StartEndTag tag attr_list) b = handle_startendtag tag attr_list b"
| "handle n2c (EndTag tag) b = handle_endtag tag b"
| "handle n2c (Data d) b = handle_data d b"
| "handle n2c (EntityRef nm) b = handle_entityref n2c nm b"
| "handle n2c (Comment d) b = handle_comment d b"

fun feed :: "(pystr \<rightharpoonup> nat) \<Rightarrow> event list \<Rightarrow> builder \<Rightarrow> builder" where
  "feed n2c [] b = b"
| "feed n2c (e # es) b = feed n2c es (handle n2c e b)"

text \<open>
  The tree under \<open>self.root\<close> as a value: every open element is written into its parent.
  \<open>cursor_path\<close> is the position of \<open>self.current\<close> in that tree, as the list of child
  indices leading to it from the root (an open element is the last child of its parent).
\<close>

fun close_chain :: "frame list \<Rightarrow> frame \<Rightarrow> frame" where
  "close_chain [] r = r"
| "close_chain [f] r = add_child (Elem (node_of f)) r"
| "close_chain (f # g # fs) r = close_chain (add_child (Elem (node_of f)) g # fs) r"

definition root_node :: "builder \<Rightarrow> node" where
  "root_node b = node_of (close_chain (opened b) (root b))"

definition cursor_path :: "builder \<Rightarrow> nat list" where
  "cursor_path b =
     (case opened b of
        [] \<Rightarrow> []
      | f # fs \<Rightarrow> rev (map (\<lambda>g. length (f_children g)) (fs @ [root b])))"

definition current_name :: "builder \<Rightarrow> pystr" where
  "current_name b = (case opened b of [] \<Rightarrow> f_name (root b) | f # fs \<Rightarrow> f_name f)"

section \<open>bs4: selectors\<close>

text \<open>The dataclass \<open>_Selector\<close>; every field is optional.\<close>

record selector =
  sel_tag :: "pystr option"
  sel_id :: "pystr option"
  sel_classes :: "pystr list option"
  sel_attr_name :: "pystr option"
  sel_attr_value :: "pystr option"
  sel_attr_op :: "pystr option"

text \<open>The loop \<open>for cls in self.classes: if cls not in node_classes: return False\<close>.\<close>

fun classes_present :: "pystr list \<Rightarrow> pystr list \<Rightarrow> bool" where
  "classes_present [] node_classes = True"
| "classes_present (cls # rest) node_classes =
     (if cls \<notin> set node_classes then False else classes_present rest node_classes)"

text \<open>
  \<open>_Selector.matches\<close>. A field is tested only when it is truthy: not \<open>None\<close> and not
  empty.
\<close>

definition matches :: "selector \<Rightarrow> node \<Rightarrow> bool" where
  "matches s n =
     (if name n = root_name then False
      else if truthy (sel_tag s) \<and> lower (name n) \<noteq> lower (the (sel_tag s)) then False
      else if truthy (sel_id s) \<and> dict_get (attrs n) (str ''id'') \<noteq> sel_id s then False
      else if (case sel_classes s of
                 None \<Rightarrow> False
               | Some cls \<Rightarrow> cls \<noteq> [] \<and>
                   \<not> classes_present cls
                       (split_ws (case dict_get (attrs n) (str ''class'') of
                                    None \<Rightarrow> [] | Some v \<Rightarrow> v)))
           then False
      else if truthy (sel_attr_name s) then
        (case dict_get (attrs n) (the (sel_attr_name s)) of
           None \<Rightarrow> False
         | Some attr_val \<Rightarrow>
             if sel_attr_op s = Some (str ''='')
             then attr_val = (case sel_attr_value s of None \<Rightarrow> [] | Some v \<Rightarrow> v)
             else if sel_attr_op s = Some (str ''*='') \<and> truthy (sel_attr_value s)
             then contains (the (sel_attr_value s)) attr_val
             else True)
      else True)"

section \<open>bs4: traversal and queries\<close>

text \<open>
  A reference to a \<open>_Node\<close> object of a document: the node, its position among the
  children of its parent, and the reference to its parent (\<open>None\<close> for the root). This is
  what the \<open>parent\<close> field of the Python object gives. Two references into one document
  denote the same object exactly when they were reached by the same positions, which
  \<open>ident\<close> lists from the node upwards; it stands for \<open>id(node)\<close>.
\<close>

datatype node_ref = Ref (self: node) (index: nat) (parent: "node_ref option")

fun ident :: "node_ref \<Rightarrow> nat list" where
  "ident (Ref n i None) = []"
| "ident (Ref n i (Some p)) = i # ident p"

text \<open>
  \<open>_iter_nodes(node, include_self)\<close>, with the loop over the children as
  \<open>iter_children\<close>, whose last argument counts the position of the next child. This is
  the iteration when the interpreter's recursion limit is not reached; the generator with
  that limit is \<open>iter_nodes_within\<close> below.
\<close>

function iter_nodes :: "node_ref \<Rightarrow> bool \<Rightarrow> node_ref list"
  and iter_children :: "node_ref \<Rightarrow> child list \<Rightarrow> nat \<Rightarrow> node_ref list" where
  "iter_nodes r include_self =
     (if include_self \<and> name (self r) \<noteq> root_name then [r] else [])
     @ iter_children r (children (self r)) 0"
| "iter_children r [] i = []"
| "iter_children r (Elem n # cs) i = iter_nodes (Ref n i (Some r)) True @ iter_children r cs (Suc i)"
| "iter_children r (Text s # cs) i = iter_children r cs (Suc i)"
  by pat_completeness auto
termination
proof (relation "measure (\<lambda>x. case x of
          Inl (r, inc) \<Rightarrow> 2 * size (self r)
        | Inr (r, cs, i) \<Rightarrow> 2 * size_list size cs + 1)")
  show "wf (measure (\<lambda>x. case x of
          Inl (r, inc) \<Rightarrow> 2 * size (self r)
        | Inr (r, cs, i) \<Rightarrow> 2 * size_list size cs + 1))"
    by simp
next
  fix r :: node_ref and include_self :: bool
  show "(Inr (r, children (self r), 0), Inl (r, include_self)) \<in> measure (\<lambda>x. case x of
          Inl (r, inc) \<Rightarrow> 2 * size (self r)
        | Inr (r, cs, i) \<Rightarrow> 2 * size_list size cs + 1)"
    by (cases "self r") simp
qed simp_all

text \<open>The two facades: the document and a tag. Both hold a node in \<open>_node\<close>.\<close>

datatype soup = BeautifulSoup node_ref | Tag node_ref

fun node_ref_of :: "soup \<Rightarrow> node_ref" where
  "node_ref_of (BeautifulSoup r) = r"
| "node_ref_of (Tag r) = r"

fun is_BeautifulSoup :: "soup \<Rightarrow> bool" where
  "is_BeautifulSoup (BeautifulSoup r) = True"
| "is_BeautifulSoup (Tag r) = False"

text \<open>
  \<open>BeautifulSoup(markup)\<close>: the builder is fed the tokens of the markup and its root
  becomes the node of the document.
\<close>

definition soup_of_events :: "(pystr \<rightharpoonup> nat) \<Rightarrow> event list \<Rightarrow> soup" where
  "soup_of_events n2c es = BeautifulSoup (Ref (root_node (feed n2c es init_builder)) 0 None)"

text \<open>
  The \<open>name\<close> argument of \<open>find\<close> and \<open>find_all\<close>: \<open>None\<close>, a string, or a callable that
  is given a \<open>Tag\<close>. The \<open>attrs\<close> argument: \<open>None\<close> or a dictionary whose values are
  expected attribute values (a string or \<open>None\<close>) or callables that are given the attribute
  value (\<open>None\<close> when the attribute is absent). A callable returns a truth value or raises.
\<close>

datatype name_arg = NameNone | NameStr pystr | NameCallable "soup \<Rightarrow> py_exception + bool"

datatype attr_arg = AttrValue "pystr option" | AttrCallable "pystr option \<Rightarrow> py_exception + bool"

type_synonym attrs_arg = "(pystr \<times> attr_arg) list option"

text \<open>
  \<open>_match_name\<close> and \<open>_match_attrs\<close>. Their results are in the exception type so that
  what they catch and what they let through is visible: \<open>try: \<dots> except Exception\<close> is
  the case distinction on \<open>Inl\<close>, which turns an instance of \<open>Exception\<close> into
  \<open>False\<close> and lets any other exception through.
\<close>

definition match_name :: "node_ref \<Rightarrow> name_arg \<Rightarrow> py_exception + bool" where
  "match_name r nm =
     (case nm of
        NameNone \<Rightarrow> Inr True
      | NameCallable f \<Rightarrow>
          (case f (Tag r) of
             Inl e \<Rightarrow> if is_Exception e then Inr False else Inl e
           | Inr b \<Rightarrow> Inr b)
      | NameStr s \<Rightarrow> Inr (lower (name (self r)) = lower s))"

fun match_attr_items :: "node_ref \<Rightarrow> (pystr \<times> attr_arg) list \<Rightarrow> py_exception + bool" where
  "match_attr_items r [] = Inr True"
| "match_attr_items r ((key, expected) # rest) =
     (let v = dict_get (attrs (self r)) key
      in case expected of
           AttrCallable f \<Rightarrow>
             (case f v of
                Inl e \<Rightarrow> if is_Exception e then Inr False else Inl e
              | Inr b \<Rightarrow> if \<not> b then Inr False else match_attr_items r rest)
         | AttrValue x \<Rightarrow> if v \<noteq> x then Inr False else match_attr_items r rest)"

definition match_attrs :: "node_ref \<Rightarrow> attrs_arg \<Rightarrow> py_exception + bool" where
  "match_attrs r at =
     (case at of
        None \<Rightarrow> Inr True
      | Some items \<Rightarrow> if items = [] then Inr True else match_attr_items r items)"

text \<open>
  \<open>find_all\<close> (the same code in \<open>_SoupMixin\<close> and in \<open>BeautifulSoup\<close>); its loop over the
  iterator is \<open>find_loop\<close>, which carries the list \<open>matches\<close>.
\<close>

fun find_loop ::
  "node_ref list \<Rightarrow> name_arg \<Rightarrow> attrs_arg \<Rightarrow> soup list \<Rightarrow> py_exception + soup list" where
  "find_loop [] nm at found = Inr found"
| "find_loop (r # rs) nm at found =
     bind (match_name r nm) (\<lambda>a.
       if a then
         bind (match_attrs r at) (\<lambda>b.
           if b then find_loop rs nm at (found @ [Tag r]) else find_loop rs nm at found)
       else find_loop rs nm at found)"

definition find_all :: "soup \<Rightarrow> name_arg \<Rightarrow> attrs_arg \<Rightarrow> py_exception + soup list" where
  "find_all s nm at = find_loop (iter_nodes (node_ref_of s) False) nm at []"

text \<open>\<open>find\<close>: the first element of \<open>find_all\<close>, or \<open>None\<close>.\<close>

definition find_first :: "soup \<Rightarrow> name_arg \<Rightarrow> attrs_arg \<Rightarrow> py_exception + soup option" where
  "find_first s nm at =
     bind (find_all s nm at) (\<lambda>ms. case ms of [] \<Rightarrow> Inr None | m # rest \<Rightarrow> Inr (Some m))"

text \<open>
  The generator \<open>_iter_nodes\<close> is recursive: the generator of a node at depth \<open>d\<close> below
  the start node runs inside \<open>d\<close> other generators, and the interpreter raises
  \<open>RecursionError\<close> when the nesting of calls passes its limit. \<open>iter_nodes_within\<close>
  is the generator when \<open>limit\<close> nested generators are still allowed at the call: it
  gives the nodes yielded, in order, and the exception that ends the iteration, if any.
  The generator is consumed lazily, so \<open>find_all_within\<close> handles the nodes yielded
  before it meets that exception; \<open>find_within\<close> is \<open>find\<close> on top of it.
\<close>

fun iter_nodes_within :: "nat \<Rightarrow> node_ref \<Rightarrow> bool \<Rightarrow> node_ref list \<times> py_exception option"
  and iter_children_within ::
    "nat \<Rightarrow> node_ref \<Rightarrow> child list \<Rightarrow> nat \<Rightarrow> node_ref list \<times> py_exception option" where
  "iter_nodes_within 0 r include_self = ([], Some RecursionError)"
| "iter_nodes_within (Suc k) r include_self =
     (case iter_children_within k r (children (self r)) 0 of
        (below, err) \<Rightarrow>
          ((if include_self \<and> name (self r) \<noteq> root_name then [r] else []) @ below, err))"
| "iter_children_within k r [] i = ([], None)"
| "iter_children_within k r (Elem n # cs) i =
     (case iter_nodes_within k (Ref n i (Some r)) True of
        (first, Some e) \<Rightarrow> (first, Some e)
      | (first, None) \<Rightarrow>
          (case iter_children_within k r cs (Suc i) of
             (later, err) \<Rightarrow> (first @ later, err)))"
| "iter_children_within k r (Text s # cs) i = iter_children_within k r cs (Suc i)"

definition find_all_within ::
  "nat \<Rightarrow> soup \<Rightarrow> name_arg \<Rightarrow> attrs_arg \<Rightarrow> py_exception + soup list" where
  "find_all_within limit s nm at =
     (case iter_nodes_within limit (node_ref_of s) False of
        (yielded, err) \<Rightarrow>
          bind (find_loop yielded nm at []) (\<lambda>ms.
            case err of None \<Rightarrow> Inr ms | Some e \<Rightarrow> Inl e))"

definition find_within ::
  "nat \<Rightarrow> soup \<Rightarrow> name_arg \<Rightarrow> attrs_arg \<Rightarrow> py_exception + soup option" where
  "find_within limit s nm at =
     bind (find_all_within limit s nm at)
       (\<lambda>ms. case ms of [] \<Rightarrow> Inr None | m # rest \<Rightarrow> Inr (Some m))"

text \<open>
  \<open>select\<close>. \<open>_parse_selector\<close> is built on the regular-expression engine of the Python
  library and is a parameter \<open>parse\<close> here; the two nested loops carry \<open>results\<close> and
  \<open>seen\<close>. Code point 44 is the comma.
\<close>

fun select_nodes ::
  "selector \<Rightarrow> node_ref list \<Rightarrow> soup list \<times> nat list set \<Rightarrow> soup list \<times> nat list set" where
  "select_nodes parsed [] (results, seen) = (results, seen)"
| "select_nodes parsed (r # rs) (results, seen) =
     (if ident r \<in> seen then select_nodes parsed rs (results, seen)
      else if matches parsed (self r)
           then select_nodes parsed rs (results @ [Tag r], insert (ident r) seen)
           else select_nodes parsed rs (results, seen))"

fun select_items ::
  "(pystr \<Rightarrow> selector) \<Rightarrow> pystr list \<Rightarrow> node_ref list \<Rightarrow> soup list \<times> nat list set
   \<Rightarrow> soup list \<times> nat list set" where
  "select_items parse [] iterator st = st"
| "select_items parse (selector_item # rest) iterator st =
     select_items parse rest iterator (select_nodes (parse selector_item) iterator st)"

definition selector_parts :: "pystr \<Rightarrow> pystr list" where
  "selector_parts sel = map strip (filter (\<lambda>part. strip part \<noteq> []) (split_on 44 sel))"

definition select :: "(pystr \<Rightarrow> selector) \<Rightarrow> soup \<Rightarrow> pystr \<Rightarrow> soup list" where
  "select parse s sel =
     fst (select_items parse (selector_parts sel)
            (iter_nodes (node_ref_of s) (is_BeautifulSoup s)) ([], {}))"

definition select_one :: "(pystr \<Rightarrow> selector) \<Rightarrow> soup \<Rightarrow> pystr \<Rightarrow> soup option" where
  "select_one parse s sel = (case select parse s sel of [] \<Rightarrow> None | m # rest \<Rightarrow> Some m)"

definition get_text :: "soup \<Rightarrow> bool \<Rightarrow> pystr" where
  "get_text s strp =
     (let t = text_content (self (node_ref_of s)) in if strp then strip t else t)"

definition decode_contents :: "soup \<Rightarrow> pystr" where
  "decode_contents s = render_contents (self (node_ref_of s))"

text \<open>The methods of \<open>Tag\<close> that read attributes.\<close>

definition has_attr :: "soup \<Rightarrow> pystr \<Rightarrow> bool" where
  "has_attr t key = (dict_get (attrs (self (node_ref_of t))) key \<noteq> None)"

definition getitem :: "soup \<Rightarrow> pystr \<Rightarrow> py_exception + pystr" where
  "getitem t key =
     (case dict_get (attrs (self (node_ref_of t))) key of None \<Rightarrow> Inl KeyError | Some v \<Rightarrow> Inr v)"

definition tag_get :: "soup \<Rightarrow> pystr \<Rightarrow> pystr option" where
  "tag_get t key = dict_get (attrs (self (node_ref_of t))) key"

text \<open>
  \<open>Tag.next_sibling\<close>. \<open>siblings.index(self._node)\<close> finds the node by identity, that is
  at its own position; the loop over \<open>siblings[index + 1:]\<close> is \<open>first_sibling\<close>.
\<close>

datatype sibling = SiblingTag soup | SiblingText pystr

fun first_sibling :: "node_ref \<Rightarrow> child list \<Rightarrow> nat \<Rightarrow> sibling option" where
  "first_sibling p [] i = None"
| "first_sibling p (Elem n # cs) i = Some (SiblingTag (Tag (Ref n i (Some p))))"
| "first_sibling p (Text s # cs) i =
     (if strip s \<noteq> [] then Some (SiblingText s) else first_sibling p cs (Suc i))"

definition next_sibling :: "soup \<Rightarrow> sibling option" where
  "next_sibling t =
     (case parent (node_ref_of t) of
        None \<Rightarrow> None
      | Some p \<Rightarrow>
          (let siblings = children (self p); i = index (node_ref_of t)
           in if i < length siblings \<and> siblings ! i = Elem (self (node_ref_of t))
              then first_sibling p (drop (Suc i) siblings) (Suc i)
              else None))"

section \<open>bs4: the attrs accessor and object identity\<close>

text \<open>
  A dictionary is a mutable object, and \<open>Tag.attrs\<close> returns \<open>dict(self._node.attrs)\<close>.
  Whether a caller who changes the returned dictionary changes the node depends on which
  object is returned, so here the dictionary objects live in a store and are named by
  references (their position in the store); a node holds the reference of its attribute
  dictionary. The values are strings, which are immutable.
\<close>

type_synonym dict_ref = nat

type_synonym dict_store = "pydict list"

text \<open>\<open>dict(d)\<close>: a new dictionary object with the items of \<open>d\<close>.\<close>

definition dict_copy :: "dict_store \<Rightarrow> dict_ref \<Rightarrow> dict_ref \<times> dict_store" where
  "dict_copy st d = (length st, st @ [st ! d])"

text \<open>\<open>Tag.attrs\<close>, for a tag whose node has the attribute dictionary \<open>node_attrs\<close>.\<close>

definition tag_attrs :: "dict_store \<Rightarrow> dict_ref \<Rightarrow> dict_ref \<times> dict_store" where
  "tag_attrs st node_attrs = dict_copy st node_attrs"

text \<open>
  Any in-place change of the dictionary object \<open>d\<close> (\<open>d[k] = v\<close>, \<open>del d[k]\<close>,
  \<open>d.clear()\<close>, \<open>d.update(\<dots>)\<close>, \<dots>): its items are replaced by a function of them.
\<close>

definition mutate :: "dict_ref \<Rightarrow> (pydict \<Rightarrow> pydict) \<Rightarrow> dict_store \<Rightarrow> dict_store" where
  "mutate d f st = st[d := f (st ! d)]"

section \<open>kpi1\_extract.py\<close>

text \<open>
  The functions below call \<open>find\<close> and do not catch anything, so they are written in the
  exception type as well. \<open>parse\<close> is the selector parser, as in \<open>select\<close>.
\<close>

definition extract_title :: "soup \<Rightarrow> py_exception + pystr" where
  "extract_title sp =
     bind (find_first sp (NameStr (str ''h1'')) None) (\<lambda>t1.
       bind (case t1 of
               None \<Rightarrow> find_first sp (NameStr (str ''title'')) None
             | Some t \<Rightarrow> Inr t1) (\<lambda>t2.
         Inr (clean_text (case t2 of None \<Rightarrow> None | Some t \<Rightarrow> Some (get_text t False)))))"

text \<open>\<open>lambda c: c and "Price" in c\<close>.\<close>

definition price_class :: "pystr option \<Rightarrow> py_exception + bool" where
  "price_class c = Inr (case c of None \<Rightarrow> False | Some v \<Rightarrow> v \<noteq> [] \<and> contains (str ''Price'') v)"

definition price_candidates :: "(name_arg \<times> attrs_arg) list" where
  "price_candidates =
     [(NameStr (str ''span''), Some [(str ''itemprop'', AttrValue (Some (str ''price'')))]),
      (NameStr (str ''span''), Some [(str ''class'', AttrCallable price_class)]),
      (NameStr (str ''div''), Some [(str ''class'', AttrCallable price_class)])]"

fun price_loop :: "soup \<Rightarrow> (name_arg \<times> attrs_arg) list \<Rightarrow> py_exception + pystr" where
  "price_loop sp [] = Inr unknown"
| "price_loop sp ((nm, at) # rest) =
     bind (find_first sp nm at) (\<lambda>found.
       case found of
         Some t \<Rightarrow> Inr (clean_text (Some (get_text t False)))
       | None \<Rightarrow> price_loop sp rest)"

definition extract_price :: "soup \<Rightarrow> py_exception + pystr" where
  "extract_price sp = price_loop sp price_candidates"

text \<open>
  \<open>_extract_shipping\<close>. The first label is the two-character string U+9001 U+6599. The
  callable given to \<open>find\<close> is \<open>label_is\<close> (its argument is always a \<open>Tag\<close>). The loop
  over the labels returns \<open>Some\<close> of the function's result when it returns from inside the
  loop; \<open>sibling_text\<close> is the \<open>getattr(\<dots>, "get_text", \<dots>)()\<close> expression.
\<close>

definition shipping_labels :: "pystr list" where
  "shipping_labels = [[36865, 26009], str ''Shipping'']"

definition label_is :: "pystr \<Rightarrow> soup \<Rightarrow> py_exception + bool" where
  "label_is label t = Inr (get_text t True = label)"

fun sibling_text :: "sibling \<Rightarrow> pystr" where
  "sibling_text (SiblingTag t) = get_text t False"
| "sibling_text (SiblingText s) = s"

fun shipping_label_loop :: "soup \<Rightarrow> pystr list \<Rightarrow> py_exception + pystr option" where
  "shipping_label_loop sp [] = Inr None"
| "shipping_label_loop sp (label # rest) =
     bind (find_first sp (NameCallable (label_is label)) None) (\<lambda>cell.
       case cell of
         None \<Rightarrow> shipping_label_loop sp rest
       | Some c \<Rightarrow>
           (case next_sibling c of
              None \<Rightarrow> shipping_label_loop sp rest
            | Some sib \<Rightarrow> Inr (Some (clean_text (Some (sibling_text sib))))))"

fun shipping_candidates :: "soup list \<Rightarrow> pystr" where
  "shipping_candidates [] = unknown"
| "shipping_candidates (t # rest) =
     (let txt = clean_text (Some (get_text t False))
      in if txt \<noteq> unknown then txt else shipping_candidates rest)"

definition extract_shipping :: "(pystr \<Rightarrow> selector) \<Rightarrow> soup \<Rightarrow> py_exception + pystr" where
  "extract_shipping parse sp =
     bind (shipping_label_loop sp shipping_labels) (\<lambda>r.
       case r of
         Some v \<Rightarrow> Inr v
       | None \<Rightarrow>
           Inr (shipping_candidates
                  (select parse sp (str ''.ProductDetail__shipping, .Shipping__value''))))"

definition description_candidates :: "pystr list" where
  "description_candidates =
     [str ''#ProductExplanation'', str ''#ProductDescription'', str ''.ProductExplanation'',
      str ''section[itemprop='' @ [39] @ str ''description'' @ [39] @ str '']'',
      str ''div[class*='' @ [39] @ str ''Description'' @ [39] @ str '']'']"

fun description_loop :: "(pystr \<Rightarrow> selector) \<Rightarrow> soup \<Rightarrow> pystr list \<Rightarrow> pystr" where
  "description_loop parse sp [] = unknown"
| "description_loop parse sp (sel # rest) =
     (case select_one parse sp sel of
        Some t \<Rightarrow> decode_contents t
      | None \<Rightarrow> description_loop parse sp rest)"

definition extract_description :: "(pystr \<Rightarrow> selector) \<Rightarrow> soup \<Rightarrow> pystr" where
  "extract_description parse sp = description_loop parse sp description_candidates"

text \<open>
  \<open>_ensure_absolute_url\<close>. \<open>src.lstrip('./')\<close> drops leading full stops (46) and slashes
  (47).
\<close>

definition ensure_absolute_url :: "pystr \<Rightarrow> soup \<Rightarrow> py_exception + pystr" where
  "ensure_absolute_url src sp =
     (if startswith src (str ''http'') then Inr src
      else
        bind (find_first sp (NameStr (str ''base'')) None) (\<lambda>base_tag.
          bind (case base_tag of
                  None \<Rightarrow> Inr []
                | Some t \<Rightarrow> if has_attr t (str ''href'') then getitem t (str ''href'') else Inr [])
            (\<lambda>base_url.
               let base_url' =
                     (if base_url \<noteq> [] \<and> last base_url \<noteq> 47 then base_url @ str ''/''
                      else base_url)
               in Inr (if base_url' \<noteq> []
                       then base_url' @ dropWhile (\<lambda>c. c = 46 \<or> c = 47) src
                       else src))))"

text \<open>\<open>a or b\<close> on optional strings.\<close>

definition py_or :: "pystr option \<Rightarrow> pystr option \<Rightarrow> pystr option" where
  "py_or a b = (if truthy a then a else b)"

definition gallery_selectors :: "pystr list" where
  "gallery_selectors =
     [str ''#ProductPhoto'', str ''#ProductImage'', str ''.ProductImage'',
      str ''div[class*='' @ [39] @ str ''Image'' @ [39] @ str '']'']"

fun gallery_imgs :: "soup \<Rightarrow> soup list \<Rightarrow> pystr list \<Rightarrow> py_exception + pystr list" where
  "gallery_imgs sp [] acc = Inr acc"
| "gallery_imgs sp (img # rest) acc =
     (let src = py_or (py_or (tag_get img (str ''src'')) (tag_get img (str ''data-src'')))
                      (tag_get img (str ''data-lazy''))
      in if \<not> truthy src then gallery_imgs sp rest acc
         else bind (ensure_absolute_url (the src) sp) (\<lambda>u. gallery_imgs sp rest (acc @ [u])))"

fun gallery_loop ::
  "(pystr \<Rightarrow> selector) \<Rightarrow> soup \<Rightarrow> pystr list \<Rightarrow> pystr list \<Rightarrow> py_exception + pystr list" where
  "gallery_loop parse sp [] acc = Inr acc"
| "gallery_loop parse sp (sel # rest) acc =
     (case select_one parse sp sel of
        None \<Rightarrow> gallery_loop parse sp rest acc
      | Some container \<Rightarrow>
          bind (find_all container (NameStr (str ''img'')) None) (\<lambda>imgs.
            bind (gallery_imgs sp imgs acc) (\<lambda>acc'.
              if acc' \<noteq> [] then Inr acc' else gallery_loop parse sp rest acc')))"

fun fallback_imgs :: "soup \<Rightarrow> soup list \<Rightarrow> pystr list \<Rightarrow> py_exception + pystr list" where
  "fallback_imgs sp [] acc = Inr acc"
| "fallback_imgs sp (img # rest) acc =
     bind (if truthy (tag_get img (str ''src''))
           then bind (ensure_absolute_url (the (tag_get img (str ''src''))) sp)
                  (\<lambda>u. Inr (acc @ [u]))
           else Inr acc) (\<lambda>acc'.
       if length acc' \<ge> 3 then Inr acc' else fallback_imgs sp rest acc')"

definition extract_photos :: "(pystr \<Rightarrow> selector) \<Rightarrow> soup \<Rightarrow> py_exception + pystr list" where
  "extract_photos parse sp =
     bind (gallery_loop parse sp gallery_selectors []) (\<lambda>acc.
       if acc = []
       then bind (find_all sp (NameStr (str ''img'')) None) (\<lambda>imgs. fallback_imgs sp imgs acc)
       else Inr acc)"

text \<open>
  \<open>extract_listing\<close>. \<open>fetch_html\<close>, which performs the HTTP request, is a parameter:
  it returns a document or raises. Only \<open>FetchError\<close> is caught.
\<close>

record listing =
  title :: pystr
  price :: pystr
  shipping :: pystr
  photos :: "pystr list"
  description_html :: pystr

definition extract_listing ::
  "(pystr \<Rightarrow> py_exception + soup) \<Rightarrow> (pystr \<Rightarrow> selector) \<Rightarrow> pystr \<Rightarrow> py_exception + listing" where
  "extract_listing fetch_html parse url =
     (case fetch_html url of
        Inl e \<Rightarrow>
          if e = FetchError
          then Inr \<lparr>title = unknown, price = unknown, shipping = unknown, photos = [],
                    description_html = unknown\<rparr>
          else Inl e
      | Inr sp \<Rightarrow>
          bind (extract_title sp) (\<lambda>t.
            bind (extract_price sp) (\<lambda>p.
              bind (extract_shipping parse sp) (\<lambda>s.
                bind (extract_photos parse sp) (\<lambda>ph.
                  Inr \<lparr>title = t, price = p, shipping = s, photos = ph,
                       description_html = extract_description parse sp\<rparr>)))))"

chapter \<open>Statements of the specification and example inputs\<close>

section \<open>Titles\<close>

text \<open>
  One component of a title: the cleaned value of a field, decorated, unless it is the
  placeholder. \<open>title_components\<close> lists the components as the code produces them;
  \<open>claimed_components\<close> lists them as the specification words them, with the suffix
  \<open>J\<close> after the width.
\<close>

definition spec_fields :: "pystr list" where
  "spec_fields =
     [str ''brand'', str ''model'', str ''inch'', str ''width'', str ''holes'', str ''pcd'',
      str ''offset'']"

definition component :: "specs_arg \<Rightarrow> pystr \<Rightarrow> (pystr \<Rightarrow> pystr) \<Rightarrow> pystr list" where
  "component specs key deco =
     (let v = clean_text (spec_get specs key) in if v = unknown then [] else [deco v])"

definition title_components :: "specs_arg \<Rightarrow> pystr list" where
  "title_components specs =
     component specs (str ''brand'') (\<lambda>v. v)
     @ component specs (str ''model'') (\<lambda>v. v)
     @ component specs (str ''inch'') (\<lambda>v. v)
     @ component specs (str ''width'') (\<lambda>v. v)
     @ component specs (str ''holes'') (\<lambda>v. v @ str ''H'')
     @ component specs (str ''pcd'') (\<lambda>v. str ''PCD'' @ v)
     @ component specs (str ''offset'') (\<lambda>v. str ''OFFSET'' @ v)"

definition claimed_components :: "specs_arg \<Rightarrow> pystr list" where
  "claimed_components specs =
     component specs (str ''brand'') (\<lambda>v. v)
     @ component specs (str ''model'') (\<lambda>v. v)
     @ component specs (str ''inch'') (\<lambda>v. v)
     @ component specs (str ''width'') (\<lambda>v. v @ str ''J'')
     @ component specs (str ''holes'') (\<lambda>v. v @ str ''H'')
     @ component specs (str ''pcd'') (\<lambda>v. str ''PCD'' @ v)
     @ component specs (str ''offset'') (\<lambda>v. str ''OFFSET'' @ v)"

definition claimed_title :: "specs_arg \<Rightarrow> pystr" where
  "claimed_title specs = join (str '' '') (claimed_components specs)"

definition rays_specs :: specs_arg where
  "rays_specs = Dict [str ''brand'' \<mapsto> str ''RAYS'', str ''width'' \<mapsto> str ''7'']"

definition blank_specs :: specs_arg where
  "blank_specs = Dict [str ''brand'' \<mapsto> unknown, str ''model'' \<mapsto> []]"

section \<open>Pattern extraction\<close>

text \<open>
  The value that the specification names: the first non-empty capture group of a match, or
  the full match when there is none.
\<close>

definition match_value :: "re_match \<Rightarrow> pystr" where
  "match_value m =
     (case List.find truthy (groups m) of Some (Some g) \<Rightarrow> g | _ \<Rightarrow> group0 m)"

text \<open>
  A table of \<open>re.search\<close> for one pattern and one text: \<open>([A-Z]+ )\<close> matches
  \<open>RAYS TE37\<close> at its start, and its group is \<open>RAYS\<close> followed by a space.
\<close>

definition rays_search :: re_search where
  "rays_search pattern text =
     (if pattern = str ''([A-Z]+ )'' \<and> text = str ''RAYS TE37''
      then Inr (Some \<lparr>group0 = str ''RAYS '', groups = [Some (str ''RAYS '')]\<rparr>)
      else Inr None)"

section \<open>The tree builder\<close>

text \<open>The builder after the start tags of \<open><div><p>\<close>: both elements are open.\<close>

definition div_p_open :: builder where
  "div_p_open =
     feed Map.empty [StartTag (str ''div'') [], StartTag (str ''p'') []] init_builder"

section \<open>Serialising and parsing again\<close>

text \<open>
  The elements of a child list with their names, attributes and nesting, without the
  text: what a round trip through markup is to preserve.
\<close>

datatype element = Element pystr pydict "element list"

fun elements_of :: "node \<Rightarrow> element" and elements_of_children :: "child list \<Rightarrow> element list" where
  "elements_of (Node nm at cs) = Element nm at (elements_of_children cs)"
| "elements_of_children [] = []"
| "elements_of_children (Elem n # cs) = elements_of n # elements_of_children cs"
| "elements_of_children (Text s # cs) = elements_of_children cs"

text \<open>
  The entries of \<open>html.entities.name2codepoint\<close> for \<open>lt\<close> and \<open>gt\<close>, and the tokens of
  two well-formed documents: \<open><p>&lt;b&gt;x&lt;/b&gt;</p>\<close>, whose paragraph holds only
  text, and \<open><p><b>x</b></p>\<close>, whose paragraph holds an element.
\<close>

definition lt_gt :: "pystr \<rightharpoonup> nat" where
  "lt_gt = [str ''lt'' \<mapsto> 60, str ''gt'' \<mapsto> 62]"

definition escaped_events :: "event list" where
  "escaped_events =
     [StartTag (str ''p'') [], EntityRef (str ''lt''), Data (str ''b''), EntityRef (str ''gt''),
      Data (str ''x''), EntityRef (str ''lt''), Data (str ''/b''), EntityRef (str ''gt''),
      EndTag (str ''p'')]"

definition element_events :: "event list" where
  "element_events =
     [StartTag (str ''p'') [], StartTag (str ''b'') [], Data (str ''x''), EndTag (str ''b''),
      EndTag (str ''p'')]"

text \<open>The \<open>Tag\<close> of the paragraph of each document, as \<open>find("p")\<close> returns it.\<close>

definition first_p :: "soup \<Rightarrow> soup" where
  "first_p doc =
     (case find_first doc (NameStr (str ''p'')) None of Inr (Some t) \<Rightarrow> t | _ \<Rightarrow> doc)"

definition escaped_p :: soup where
  "escaped_p = first_p (soup_of_events lt_gt escaped_events)"

definition element_p :: soup where
  "element_p = first_p (soup_of_events lt_gt element_events)"

section \<open>Selectors\<close>

text \<open>
  The clauses of a selector as the specification words them. A clause is present when its
  field is neither \<open>None\<close> nor empty; \<open>value_of\<close> reads a missing value as the empty
  string.
\<close>

definition value_of :: "pystr option \<Rightarrow> pystr" where
  "value_of v = (case v of None \<Rightarrow> [] | Some s \<Rightarrow> s)"

definition tag_clause :: "selector \<Rightarrow> node \<Rightarrow> bool" where
  "tag_clause s n \<longleftrightarrow> (truthy (sel_tag s) \<longrightarrow> lower (name n) = lower (value_of (sel_tag s)))"

definition id_clause :: "selector \<Rightarrow> node \<Rightarrow> bool" where
  "id_clause s n \<longleftrightarrow> (truthy (sel_id s) \<longrightarrow> dict_get (attrs n) (str ''id'') = sel_id s)"

definition class_clause :: "selector \<Rightarrow> node \<Rightarrow> bool" where
  "class_clause s n \<longleftrightarrow>
     (\<forall>cls\<in>set (case sel_classes s of None \<Rightarrow> [] | Some c \<Rightarrow> c).
        cls \<in> set (split_ws (value_of (dict_get (attrs n) (str ''class'')))))"

definition attr_clause :: "selector \<Rightarrow> node \<Rightarrow> bool" where
  "attr_clause s n \<longleftrightarrow>
     (truthy (sel_attr_name s) \<longrightarrow>
        (case dict_get (attrs n) (value_of (sel_attr_name s)) of
           None \<Rightarrow> False
         | Some v \<Rightarrow>
             (sel_attr_op s = Some (str ''='') \<longrightarrow> v = value_of (sel_attr_value s))
             \<and> (sel_attr_op s = Some (str ''*='') \<longrightarrow>
                  (\<exists>before after. v = before @ value_of (sel_attr_value s) @ after))))"

definition no_constraints :: selector where
  "no_constraints =
     \<lparr>sel_tag = None, sel_id = None, sel_classes = None, sel_attr_name = None,
      sel_attr_value = None, sel_attr_op = None\<rparr>"

text \<open>
  Examples: the selector \<open>div.a[href*=x]\<close> with its substring operator, and an element
  \<open><DIV class="b a" href="1x2">\<close>.
\<close>

definition div_a_href :: selector where
  "div_a_href =
     \<lparr>sel_tag = Some (str ''div''), sel_id = None, sel_classes = Some [str ''a''],
      sel_attr_name = Some (str ''href''), sel_attr_value = Some (str ''x''),
      sel_attr_op = Some (str ''*='')\<rparr>"

definition div_node :: node where
  "div_node = Node (str ''DIV'') [(str ''class'', str ''b a''), (str ''href'', str ''1x2'')] []"

section \<open>Queries\<close>

text \<open>
  What it means for a node to pass the filters of \<open>find\<close> and \<open>find_all\<close>, as the
  specification words it: a callable counts as matching only when it returns a true
  value, so a callable that raises is a non-match.
\<close>

definition name_matches :: "node_ref \<Rightarrow> name_arg \<Rightarrow> bool" where
  "name_matches r nm \<longleftrightarrow>
     (case nm of
        NameNone \<Rightarrow> True
      | NameStr s \<Rightarrow> lower (name (self r)) = lower s
      | NameCallable f \<Rightarrow> f (Tag r) = Inr True)"

definition attr_matches :: "node_ref \<Rightarrow> pystr \<times> attr_arg \<Rightarrow> bool" where
  "attr_matches r item \<longleftrightarrow>
     (case snd item of
        AttrValue x \<Rightarrow> dict_get (attrs (self r)) (fst item) = x
      | AttrCallable f \<Rightarrow> f (dict_get (attrs (self r)) (fst item)) = Inr True)"

definition attrs_match :: "node_ref \<Rightarrow> attrs_arg \<Rightarrow> bool" where
  "attrs_match r at \<longleftrightarrow>
     list_all (attr_matches r) (case at of None \<Rightarrow> [] | Some items \<Rightarrow> items)"

definition passing :: "soup \<Rightarrow> name_arg \<Rightarrow> attrs_arg \<Rightarrow> node_ref list" where
  "passing s nm at =
     filter (\<lambda>r. name_matches r nm \<and> attrs_match r at) (iter_nodes (node_ref_of s) False)"

text \<open>
  A filter is safe when none of its callables raises anything but instances of
  \<open>Exception\<close>. The depth of a node is the number of nested generators that
  \<open>_iter_nodes\<close> needs to walk it: one for the node and one for each level of elements
  below it.
\<close>

definition safe_name :: "name_arg \<Rightarrow> bool" where
  "safe_name nm \<longleftrightarrow>
     (case nm of
        NameCallable f \<Rightarrow> (\<forall>t e. f t = Inl e \<longrightarrow> is_Exception e)
      | _ \<Rightarrow> True)"

definition safe_attr :: "pystr \<times> attr_arg \<Rightarrow> bool" where
  "safe_attr item \<longleftrightarrow>
     (case snd item of
        AttrCallable g \<Rightarrow> (\<forall>v e. g v = Inl e \<longrightarrow> is_Exception e)
      | _ \<Rightarrow> True)"

definition safe_attrs :: "attrs_arg \<Rightarrow> bool" where
  "safe_attrs at \<longleftrightarrow> list_all safe_attr (case at of None \<Rightarrow> [] | Some items \<Rightarrow> items)"

fun depth :: "node \<Rightarrow> nat" and depth_children :: "child list \<Rightarrow> nat" where
  "depth (Node nm at cs) = Suc (depth_children cs)"
| "depth_children [] = 0"
| "depth_children (Elem n # cs) = max (depth n) (depth_children cs)"
| "depth_children (Text s # cs) = depth_children cs"

text \<open>
  Examples: the document \<open><p><b>x</b></p>\<close>; a callable that raises an \<open>Exception\<close> on
  the element \<open>b\<close> and accepts every other tag; a callable that always raises an
  \<open>Exception\<close>; a callable that raises \<open>SystemExit\<close>; and the document of \<open><div>\<close>
  written \<open>k\<close> times, whose elements are nested \<open>k\<close> deep.
\<close>

definition element_doc :: soup where
  "element_doc = soup_of_events lt_gt element_events"

definition raises_on_b :: "soup \<Rightarrow> py_exception + bool" where
  "raises_on_b t =
     (if name (self (node_ref_of t)) = str ''b'' then Inl (OtherException (str ''boom''))
      else Inr True)"

definition always_raises :: "soup \<Rightarrow> py_exception + bool" where
  "always_raises t = Inl (OtherException (str ''boom''))"

definition exits :: "soup \<Rightarrow> py_exception + bool" where
  "exits t = Inl SystemExit"

fun nested_divs :: "nat \<Rightarrow> child list" where
  "nested_divs 0 = []"
| "nested_divs (Suc k) = [Elem (Node (str ''div'') [] (nested_divs k))]"

definition deep_doc :: "nat \<Rightarrow> soup" where
  "deep_doc k = BeautifulSoup (Ref (Node root_name [] (nested_divs k)) 0 None)"

section \<open>select\<close>

text \<open>
  The order that the specification gives to the result of \<open>select\<close>: for each compound
  selector in turn, the nodes of the iteration, in document order, that it matches and that
  no earlier selector of the list matches.
\<close>

definition group_matches :: "selector list \<Rightarrow> selector \<Rightarrow> node_ref list \<Rightarrow> node_ref list" where
  "group_matches earlier p iterator =
     filter (\<lambda>r. matches p (self r) \<and> list_all (\<lambda>q. \<not> matches q (self r)) earlier) iterator"

fun selector_groups :: "selector list \<Rightarrow> selector list \<Rightarrow> node_ref list \<Rightarrow> node_ref list" where
  "selector_groups earlier [] iterator = []"
| "selector_groups earlier (p # ps) iterator =
     group_matches earlier p iterator @ selector_groups (earlier @ [p]) ps iterator"

text \<open>
  The nodes that an iteration is to visit, said without the iteration. \<open>ref_at r p\<close> is
  the node reached from \<open>r\<close> by the child positions \<open>p\<close>, when each of them is an element;
  \<open>descendants\<close> are the nodes so reached, the start node only when it is included, and
  none that bears the name of the root. Document order compares the nodes by their
  positions from the root of the document, \<open>rev (ident x)\<close>, lexicographically: a node
  comes before the nodes below it, and these before its later siblings.
\<close>

fun ref_at :: "node_ref \<Rightarrow> nat list \<Rightarrow> node_ref option" where
  "ref_at r [] = Some r"
| "ref_at r (i # p) =
     (if i < length (children (self r))
      then (case children (self r) ! i of
              Elem n \<Rightarrow> ref_at (Ref n i (Some r)) p
            | Text s \<Rightarrow> None)
      else None)"

definition descendants :: "node_ref \<Rightarrow> bool \<Rightarrow> node_ref set" where
  "descendants r include_self =
     {x. \<exists>p. (include_self \<or> p \<noteq> []) \<and> ref_at r p = Some x \<and> name (self x) \<noteq> root_name}"

definition doc_before :: "node_ref \<Rightarrow> node_ref \<Rightarrow> bool" where
  "doc_before x y \<longleftrightarrow> (rev (ident x), rev (ident y)) \<in> lexord {(i, j). i < j}"

text \<open>
  Example: the document \<open><a><b></b></a><b></b>\<close>, and \<open>_parse_selector\<close> on the two
  selector texts \<open>a\<close> and \<open>b\<close>, each a tag name (it is used on no other text).
\<close>

definition a_b_doc :: soup where
  "a_b_doc =
     soup_of_events Map.empty
       [StartTag (str ''a'') [], StartTag (str ''b'') [], EndTag (str ''b''), EndTag (str ''a''),
        StartTag (str ''b'') [], EndTag (str ''b'')]"

definition parse_a_b :: "pystr \<Rightarrow> selector" where
  "parse_a_b sel =
     (if sel = str ''a'' \<or> sel = str ''b'' then no_constraints\<lparr>sel_tag := Some sel\<rparr>
      else no_constraints)"

section \<open>The attrs accessor\<close>

text \<open>
  Example: a store with the attribute dictionary \<open>{"class": "a"}\<close> of one node, and a
  caller who sets \<open>class\<close> to \<open>b\<close> in a dictionary.
\<close>

definition one_dict :: dict_store where
  "one_dict = [[(str ''class'', str ''a'')]]"

definition set_class_b :: "pydict \<Rightarrow> pydict" where
  "set_class_b d = dict_set d (str ''class'') (str ''b'')"

section \<open>Cleaned text\<close>

text \<open>
  A string in the normal form of \<open>clean_text\<close>: not empty, no whitespace at either end,
  and every whitespace character is a single space (code point 32) followed by a
  character that is not whitespace.
\<close>

fun single_spaced :: "pystr \<Rightarrow> bool" where
  "single_spaced [] = True"
| "single_spaced [c] = (\<not> is_space c)"
| "single_spaced (c # d # cs) = ((is_space c \<longrightarrow> c = 32 \<and> \<not> is_space d) \<and> single_spaced (d # cs))"

definition normalized :: "pystr \<Rightarrow> bool" where
  "normalized s \<longleftrightarrow> s \<noteq> [] \<and> \<not> is_space (hd s) \<and> single_spaced s"

definition cleaned :: "pystr \<Rightarrow> bool" where
  "cleaned s \<longleftrightarrow> s = unknown \<or> normalized s"

section \<open>Extraction\<close>

text \<open>
  Example. The tokens of a small listing page:
  \<open><h1> RAYS  TE37 </h1><div class="ProductPrice">120000</div>\<close>
  \<open><div class="ProductDetail__shipping">free  shipping</div>\<close>; a fetch function that
  returns its document for one address and raises \<open>FetchError\<close> for every other; and
  what \<open>_parse_selector\<close> makes of the selectors of the script: \<open>#x\<close> is an id, \<open>.x\<close>
  a class, \<open>section[itemprop='description']\<close> a tag with an attribute equal to a value,
  and in \<open>div[class*='\<dots>']\<close> the attribute pattern reads the name up to the equals sign, so
  that the name is \<open>class*\<close> and the operator \<open>=\<close>.
\<close>

definition sample_events :: "event list" where
  "sample_events =
     [StartTag (str ''h1'') [], Data (str '' RAYS  TE37 ''), EndTag (str ''h1''),
      StartTag (str ''div'') [(str ''class'', Some (str ''ProductPrice''))],
      Data (str ''120000''), EndTag (str ''div''),
      StartTag (str ''div'') [(str ''class'', Some (str ''ProductDetail__shipping''))],
      Data (str ''free  shipping''), EndTag (str ''div'')]"

definition sample_doc :: soup where
  "sample_doc = soup_of_events Map.empty sample_events"

definition sample_fetch :: "pystr \<Rightarrow> py_exception + soup" where
  "sample_fetch url = (if url = str ''sample'' then Inr sample_doc else Inl FetchError)"

definition kpi_parse :: "pystr \<Rightarrow> selector" where
  "kpi_parse sel =
     (case sel of
        [] \<Rightarrow> no_constraints
      | c # rest \<Rightarrow>
          if c = 35 then no_constraints\<lparr>sel_id := Some rest\<rparr>
          else if c = 46 then no_constraints\<lparr>sel_classes := Some [rest]\<rparr>
          else if sel = str ''section[itemprop='' @ [39] @ str ''description'' @ [39] @ str '']''
          then no_constraints\<lparr>sel_tag := Some (str ''section''),
                 sel_attr_name := Some (str ''itemprop''),
                 sel_attr_value := Some (str ''description''), sel_attr_op := Some (str ''='')\<rparr>
          else if sel = str ''div[class*='' @ [39] @ str ''Description'' @ [39] @ str '']''
          then no_constraints\<lparr>sel_tag := Some (str ''div''),
                 sel_attr_name := Some (str ''class*''),
                 sel_attr_value := Some (str ''Description''), sel_attr_op := Some (str ''='')\<rparr>
          else if sel = str ''div[class*='' @ [39] @ str ''Image'' @ [39] @ str '']''
          then no_constraints\<lparr>sel_tag := Some (str ''div''),
                 sel_attr_name := Some (str ''class*''),
                 sel_attr_value := Some (str ''Image''), sel_attr_op := Some (str ''='')\<rparr>
          else no_constraints)"

chapter \<open>Properties\<close>

section \<open>Strings\<close>

lemma split_ws_Nil: "dropWhile is_space s = [] \<Longrightarrow> split_ws s = []"
  by (subst split_ws.simps) (simp only: list.case)

lemma split_ws_Cons:
  "dropWhile is_space s = c # cs \<Longrightarrow>
   split_ws s = takeWhile (\<lambda>x. \<not> is_space x) (c # cs)
                # split_ws (dropWhile (\<lambda>x. \<not> is_space x) (c # cs))"
  by (subst split_ws.simps) simp

text \<open>Equations that evaluate \<open>split_ws\<close> on a given string, one character at a time.\<close>

lemma split_ws_eval_Nil: "split_ws [] = []"
  by (rule split_ws_Nil) simp

lemma split_ws_eval_space: "is_space c \<Longrightarrow> split_ws (c # cs) = split_ws cs"
  by (subst split_ws.simps, subst (2) split_ws.simps) simp

lemma split_ws_eval_word:
  "\<not> is_space c \<Longrightarrow>
   split_ws (c # cs) = (c # takeWhile (\<lambda>x. \<not> is_space x) cs)
                       # split_ws (dropWhile (\<lambda>x. \<not> is_space x) cs)"
  by (subst split_ws.simps) simp

lemmas str_eval = str_def is_space_def strip_def lstrip_def rstrip_def
  split_ws_eval_Nil split_ws_eval_space split_ws_eval_word clean_text_def unknown_def Let_def

lemma dropWhile_hd_not: "dropWhile P s = c # cs \<Longrightarrow> \<not> P c"
  by (metis hd_dropWhile list.sel(1) list.distinct(1))

lemma split_ws_words:
  "w \<in> set (split_ws s) \<Longrightarrow> w \<noteq> [] \<and> (\<forall>c\<in>set w. \<not> is_space c)"
proof (induction s rule: split_ws.induct)
  case (1 s)
  show ?case
  proof (cases "dropWhile is_space s")
    case Nil
    with "1.prems" show ?thesis by (simp add: split_ws_Nil)
  next
    case (Cons c cs)
    have nsp: "\<not> is_space c"
      using Cons by (rule dropWhile_hd_not)
    from "1.prems" have
      "w = takeWhile (\<lambda>x. \<not> is_space x) (c # cs)
       \<or> w \<in> set (split_ws (dropWhile (\<lambda>x. \<not> is_space x) (c # cs)))"
      unfolding split_ws_Cons [OF Cons] by simp
    then show ?thesis
    proof
      assume w: "w = takeWhile (\<lambda>x. \<not> is_space x) (c # cs)"
      then have "w \<noteq> []" using nsp by simp
      moreover have "\<forall>x\<in>set w. \<not> is_space x"
        unfolding w by (metis set_takeWhileD)
      ultimately show ?thesis by simp
    next
      assume "w \<in> set (split_ws (dropWhile (\<lambda>x. \<not> is_space x) (c # cs)))"
      then show ?thesis by (rule "1.IH" [OF Cons])
    qed
  qed
qed

lemma split_ws_nospace:
  assumes "s \<noteq> []" and "\<forall>c\<in>set s. \<not> is_space c"
  shows "split_ws s = [s]"
proof -
  from assms obtain c cs where s: "s = c # cs" by (cases s) auto
  have d: "dropWhile is_space s = c # cs" using assms s by simp
  have t: "takeWhile (\<lambda>x. \<not> is_space x) (c # cs) = s" using assms(2) s by simp
  have e: "dropWhile (\<lambda>x. \<not> is_space x) (c # cs) = []" using assms(2) s by simp
  have "split_ws [] = []" by (rule split_ws_eval_Nil)
  then show ?thesis
    unfolding split_ws_Cons [OF d] t e by simp
qed

lemma rstrip_nospace: "\<forall>c\<in>set s. \<not> is_space c \<Longrightarrow> rstrip s = s"
  by (cases "rev s") (auto simp: rstrip_def)

lemma lstrip_nospace: "\<forall>c\<in>set s. \<not> is_space c \<Longrightarrow> lstrip s = s"
  by (cases s) (auto simp: lstrip_def)

lemma strip_nospace: "\<forall>c\<in>set s. \<not> is_space c \<Longrightarrow> strip s = s"
  by (simp add: strip_def lstrip_nospace rstrip_nospace)

lemma join_eq_Nil: "\<forall>w\<in>set ws. w \<noteq> [] \<Longrightarrow> join sep ws = [] \<longleftrightarrow> ws = []"
  by (induction sep ws rule: join.induct) auto

section \<open>clean\_text\<close>

lemma unknown_not_space: "\<forall>c\<in>set unknown. \<not> is_space c"
  by (simp add: unknown_def is_space_def)

lemma unknown_nonempty: "unknown \<noteq> []"
  by (simp add: unknown_def)

lemma clean_text_None: "clean_text None = unknown"
  by (simp add: clean_text_def)

lemma clean_text_empty: "clean_text (Some []) = unknown"
  by (simp add: clean_text_def)

lemma clean_text_unknown: "clean_text (Some unknown) = unknown"
proof -
  have "strip unknown = unknown"
    by (rule strip_nospace) (rule unknown_not_space)
  moreover have "split_ws unknown = [unknown]"
    by (rule split_ws_nospace) (rule unknown_nonempty, rule unknown_not_space)
  ultimately show ?thesis
    by (simp add: clean_text_def)
qed

lemma clean_text_nonempty: "clean_text v \<noteq> []"
proof (cases v)
  case None
  then show ?thesis by (simp add: clean_text_None unknown_nonempty)
next
  case (Some s)
  then show ?thesis
    by (simp add: clean_text_def Let_def unknown_nonempty)
qed

section \<open>generate\_title\<close>

lemma suffix_H_not_unknown: "v @ str ''H'' \<noteq> unknown"
proof
  assume "v @ str ''H'' = unknown"
  then have "last (v @ str ''H'') = last unknown" by simp
  then show False by (simp add: str_def unknown_def)
qed

lemma prefix_PCD_not_unknown: "str ''PCD'' @ v \<noteq> unknown"
  by (simp add: str_def unknown_def)

lemma prefix_OFFSET_not_unknown: "str ''OFFSET'' @ v \<noteq> unknown"
  by (simp add: str_def unknown_def)

lemma generate_title_parts:
  "filter (\<lambda>part. part \<noteq> [] \<and> part \<noteq> unknown)
     ([clean_text b, clean_text m]
      @ (if clean_text i \<noteq> unknown then [clean_text i] else [])
      @ (if clean_text w \<noteq> unknown then [clean_text w] else [])
      @ (if clean_text h \<noteq> unknown then [clean_text h @ str ''H''] else [])
      @ (if clean_text p \<noteq> unknown then [str ''PCD'' @ clean_text p] else [])
      @ (if clean_text f \<noteq> unknown then [str ''OFFSET'' @ clean_text f] else []))
   = (if clean_text b = unknown then [] else [clean_text b])
     @ (if clean_text m = unknown then [] else [clean_text m])
     @ (if clean_text i = unknown then [] else [clean_text i])
     @ (if clean_text w = unknown then [] else [clean_text w])
     @ (if clean_text h = unknown then [] else [clean_text h @ str ''H''])
     @ (if clean_text p = unknown then [] else [str ''PCD'' @ clean_text p])
     @ (if clean_text f = unknown then [] else [str ''OFFSET'' @ clean_text f])"
proof -
  have 1: "str ''PCD'' @ clean_text p \<noteq> []" "str ''OFFSET'' @ clean_text f \<noteq> []"
    by (simp_all add: str_def)
  show ?thesis
    by (simp add: clean_text_nonempty suffix_H_not_unknown prefix_PCD_not_unknown
        prefix_OFFSET_not_unknown 1)
qed

lemma title_components_nonempty: "\<forall>w\<in>set (title_components specs). w \<noteq> []"
  by (simp add: title_components_def component_def Let_def clean_text_nonempty str_def)

lemma generate_title_filtered:
  "generate_title specs =
     (let t = join (str '' '') (title_components specs) in if t = [] then unknown else t)"
  unfolding generate_title_def title_components_def component_def Let_def
  by (simp only: generate_title_parts)

text \<open>
  C2, as amended. The title is the space-joined list of the components that are not the
  placeholder, in the order brand, model, inch, width, holes followed by \<open>H\<close>, \<open>PCD\<close>
  followed by pcd, \<open>OFFSET\<close> followed by offset, where each component is the cleaned value
  of its field and the width carries no suffix; when no component is left the title is the
  placeholder.
\<close>

theorem generate_title_components:
  "generate_title specs =
     (if title_components specs = [] then unknown
      else join (str '' '') (title_components specs))"
  using join_eq_Nil [OF title_components_nonempty, of "str '' ''" specs]
  by (simp add: generate_title_filtered Let_def)

theorem generate_title_components_witness:
  "generate_title rays_specs = join (str '' '') [str ''RAYS'', str ''7'']"
  using generate_title_components [of rays_specs]
  unfolding rays_specs_def
  by (simp add: str_eval title_components_def component_def)

text \<open>
  C2 as the specification states it fails: for a brand \<open>RAYS\<close> and a width \<open>7\<close> the code
  gives \<open>RAYS 7\<close>, not \<open>RAYS 7J\<close>; and for an input with no usable field the joined
  components are the empty string while the code gives the placeholder.
\<close>

theorem generate_title_claimed_counterexample:
  "generate_title rays_specs = str ''RAYS 7'' \<and> claimed_title rays_specs = str ''RAYS 7J''
   \<and> generate_title rays_specs \<noteq> claimed_title rays_specs
   \<and> claimed_title NotADict = [] \<and> generate_title NotADict = unknown"
  unfolding rays_specs_def
  by (simp add: str_eval generate_title_def claimed_title_def claimed_components_def
      component_def)

text \<open>
  C9. When each of the seven fields is missing, empty or the placeholder (in particular
  when the argument is not a dictionary), the title is the placeholder, and it is not the
  empty string.
\<close>

theorem generate_title_all_unknown:
  assumes "\<forall>k\<in>set spec_fields. spec_get specs k \<in> {None, Some [], Some unknown}"
  shows "generate_title specs = unknown \<and> generate_title specs \<noteq> []"
proof -
  have c: "clean_text (spec_get specs k) = unknown" if "k \<in> set spec_fields" for k
    using assms that clean_text_None clean_text_empty clean_text_unknown by auto
  have "title_components specs = []"
    unfolding title_components_def component_def Let_def
    using c by (simp add: spec_fields_def)
  then have "generate_title specs = unknown"
    by (simp add: generate_title_filtered Let_def)
  then show ?thesis by (simp add: unknown_nonempty)
qed

theorem generate_title_all_unknown_witness:
  "generate_title blank_specs = unknown \<and> generate_title blank_specs \<noteq> []
   \<and> generate_title NotADict = unknown \<and> generate_title NotADict \<noteq> []"
proof -
  have h1: "\<forall>k\<in>set spec_fields. spec_get blank_specs k \<in> {None, Some [], Some unknown}"
    by (simp add: spec_fields_def blank_specs_def str_def)
  have h2: "\<forall>k\<in>set spec_fields. spec_get NotADict k \<in> {None, Some [], Some unknown}"
    by simp
  show ?thesis
    using generate_title_all_unknown [OF h1] generate_title_all_unknown [OF h2] by blast
qed

section \<open>run\_regexes\<close>

lemma find_truthy_filter:
  "List.find truthy gs = (case filter truthy gs of [] \<Rightarrow> None | g # rest \<Rightarrow> Some g)"
  by (induction gs) auto

lemma filter_truthy_Cons: "filter truthy gs = g # rest \<Longrightarrow> \<exists>s. g = Some s \<and> s \<noteq> []"
proof -
  assume "filter truthy gs = g # rest"
  then have "g \<in> set (filter truthy gs)" by simp
  then have "truthy g" by simp
  then show ?thesis by (cases g) auto
qed

lemma matched_value:
  "(case filter truthy (groups m) of
      g # gs \<Rightarrow> Inr (clean_text g)
    | [] \<Rightarrow> Inr (clean_text (Some (group0 m))))
   = (Inr (clean_text (Some (match_value m))) :: py_exception + pystr)"
proof (cases "filter truthy (groups m)")
  case Nil
  then show ?thesis
    by (simp add: match_value_def find_truthy_filter)
next
  case (Cons g rest)
  then obtain s where "g = Some s" using filter_truthy_Cons by blast
  with Cons show ?thesis
    by (simp add: match_value_def find_truthy_filter)
qed

lemma run_regexes_skip:
  "\<forall>q\<in>set ps. search q text = Inr None \<Longrightarrow>
   run_regexes search text (ps @ rest) = run_regexes search text rest"
  by (induction ps) auto

text \<open>
  C7, as amended. Let the patterns before \<open>p\<close> not match. If \<open>p\<close> matches, the result is
  \<open>clean_text\<close> of the first non-empty capture group of that match, or \<open>clean_text\<close> of
  the full match when the match has no non-empty group (no groups at all, or only empty
  and unset ones); so the group is returned with its whitespace normalised, and a blank
  group or match gives the placeholder. If no pattern matches, the result is the
  placeholder. If \<open>p\<close> does not compile, its error is raised.
\<close>

theorem run_regexes_first_match:
  "(\<forall>q\<in>set ps. search q text = Inr None) \<longrightarrow>
     (search p text = Inr (Some m) \<longrightarrow>
        run_regexes search text (ps @ p # qs) = Inr (clean_text (Some (match_value m))))
     \<and> run_regexes search text ps = Inr unknown
     \<and> (search p text = Inl e \<longrightarrow> run_regexes search text (ps @ p # qs) = Inl e)"
proof (intro impI conjI)
  assume skip: "\<forall>q\<in>set ps. search q text = Inr None"
  show "run_regexes search text ps = Inr unknown"
    using run_regexes_skip [of ps search "text" "[]"] skip by simp
  show "run_regexes search text (ps @ p # qs) = Inr (clean_text (Some (match_value m)))"
    if "search p text = Inr (Some m)"
    using that run_regexes_skip [of ps search "text" "p # qs"] skip by (simp add: matched_value)
  show "run_regexes search text (ps @ p # qs) = Inl e" if "search p text = Inl e"
    using that run_regexes_skip [of ps search "text" "p # qs"] skip by simp
qed

theorem run_regexes_first_match_witness:
  "run_regexes rays_search (str ''RAYS TE37'') ([str ''TE38''] @ str ''([A-Z]+ )'' # [])
     = Inr (clean_text (Some (match_value \<lparr>group0 = str ''RAYS '', groups = [Some (str ''RAYS '')]\<rparr>)))
   \<and> run_regexes rays_search (str ''RAYS TE37'') [str ''TE38''] = Inr unknown"
proof -
  have skip: "\<forall>q\<in>set [str ''TE38'']. rays_search q (str ''RAYS TE37'') = Inr None"
    by (simp add: rays_search_def str_def)
  have hit: "rays_search (str ''([A-Z]+ )'') (str ''RAYS TE37'')
               = Inr (Some \<lparr>group0 = str ''RAYS '', groups = [Some (str ''RAYS '')]\<rparr>)"
    by (simp add: rays_search_def)
  show ?thesis
    using run_regexes_first_match [of "[str ''TE38'']" rays_search "str ''RAYS TE37''"
        "str ''([A-Z]+ )''" "\<lparr>group0 = str ''RAYS '', groups = [Some (str ''RAYS '')]\<rparr>" "[]"]
      skip hit
    by blast
qed

text \<open>
  C7 as the specification states it fails: the pattern \<open>([A-Z]+ )\<close> matches
  \<open>RAYS TE37\<close>, its first non-empty capture group is \<open>RAYS\<close> followed by a space, and
  \<open>run_regexes\<close> returns \<open>RAYS\<close> without the space.
\<close>

theorem run_regexes_group_counterexample:
  "rays_search (str ''([A-Z]+ )'') (str ''RAYS TE37'')
     = Inr (Some \<lparr>group0 = str ''RAYS '', groups = [Some (str ''RAYS '')]\<rparr>)
   \<and> match_value \<lparr>group0 = str ''RAYS '', groups = [Some (str ''RAYS '')]\<rparr> = str ''RAYS ''
   \<and> run_regexes rays_search (str ''RAYS TE37'') [str ''([A-Z]+ )''] = Inr (str ''RAYS'')
   \<and> run_regexes rays_search (str ''RAYS TE37'') [str ''([A-Z]+ )'']
       \<noteq> Inr (match_value \<lparr>group0 = str ''RAYS '', groups = [Some (str ''RAYS '')]\<rparr>)"
  by (simp add: rays_search_def match_value_def str_eval)

section \<open>The end tag handler\<close>

lemma move_up_Nil: "opened b = [] \<Longrightarrow> move_up b = b"
  by (simp add: move_up_def)

lemma move_up_single:
  "opened b = [f] \<Longrightarrow> move_up b = b\<lparr>opened := [], root := add_child (Elem (node_of f)) (root b)\<rparr>"
  by (simp add: move_up_def append_current_def)

lemma move_up_Cons:
  "opened b = f # g # fs \<Longrightarrow> move_up b = b\<lparr>opened := add_child (Elem (node_of f)) g # fs\<rparr>"
  by (simp add: move_up_def append_current_def)

lemma add_child_name: "f_name (add_child c f) = f_name f"
  by (simp add: add_child_def)

lemma names_move_up: "map f_name (opened (move_up b)) = tl (map f_name (opened b))"
proof (cases "opened b")
  case Nil
  then show ?thesis by (simp add: move_up_Nil)
next
  case (Cons f fs)
  then show ?thesis
    by (cases fs) (simp_all add: move_up_single move_up_Cons add_child_name)
qed

lemma length_move_up: "length (opened (move_up b)) = length (opened b) - 1"
  using names_move_up [of b] by (metis length_map length_tl)

lemma root_node_move_up: "root_node (move_up b) = root_node b"
proof (cases "opened b")
  case Nil
  then show ?thesis by (simp add: move_up_Nil)
next
  case (Cons f fs)
  then show ?thesis
    by (cases fs) (simp_all add: move_up_single move_up_Cons root_node_def)
qed

lemma cursor_path_move_up: "cursor_path (move_up b) = butlast (cursor_path b)"
proof (cases "opened b")
  case Nil
  then show ?thesis by (simp add: move_up_Nil cursor_path_def)
next
  case (Cons f fs)
  then show ?thesis
    by (cases fs) (simp_all add: move_up_single move_up_Cons cursor_path_def)
qed

lemma length_cursor_path: "length (cursor_path b) = length (opened b)"
  by (simp add: cursor_path_def split: list.splits)

lemma walk_up_Nil: "opened b = [] \<Longrightarrow> walk_up tag b = b"
  by (subst walk_up.simps) simp

lemma walk_up_match: "opened b = f # fs \<Longrightarrow> lower (f_name f) = tag \<Longrightarrow> walk_up tag b = b"
  by (subst walk_up.simps) simp

lemma walk_up_mismatch:
  "opened b = f # fs \<Longrightarrow> lower (f_name f) \<noteq> tag \<Longrightarrow> walk_up tag b = walk_up tag (move_up b)"
  by (subst walk_up.simps) simp

text \<open>
  The loop leaves the cursor as many times as there are open elements before the first one
  with the wanted name, or before the root.
\<close>

lemma walk_up_steps:
  assumes "map f_name (opened b) = pnames @ rnames"
    and "\<forall>n\<in>set pnames. lower n \<noteq> tag"
    and "rnames = [] \<or> lower (hd rnames) = tag"
  shows "walk_up tag b = (move_up ^^ length pnames) b"
  using assms
proof (induction pnames arbitrary: b)
  case Nil
  show ?case
  proof (cases "opened b")
    case Nil
    then show ?thesis by (simp add: walk_up_Nil)
  next
    case (Cons f fs)
    with Nil.prems have "lower (f_name f) = tag" by auto
    with Cons show ?thesis by (simp add: walk_up_match)
  qed
next
  case (Cons n pnames)
  from Cons.prems(1) obtain f fs where o: "opened b = f # fs" and n: "f_name f = n"
    by (cases "opened b") auto
  have mis: "lower (f_name f) \<noteq> tag" using Cons.prems(2) n by simp
  have "map f_name (opened (move_up b)) = pnames @ rnames"
    using Cons.prems(1) by (simp add: names_move_up)
  then have "walk_up tag (move_up b) = (move_up ^^ length pnames) (move_up b)"
    using Cons.prems(2,3) by (intro Cons.IH) auto
  then show ?case
    using walk_up_mismatch [OF o mis] by (simp add: funpow_swap1)
qed

lemma root_node_funpow: "root_node ((move_up ^^ k) b) = root_node b"
  by (induction k) (simp_all add: root_node_move_up)

lemma names_funpow: "map f_name (opened ((move_up ^^ k) b)) = drop k (map f_name (opened b))"
  by (induction k) (simp_all add: names_move_up drop_Suc tl_drop)

lemma cursor_path_funpow:
  "cursor_path ((move_up ^^ k) b) = take (length (opened b) - k) (cursor_path b)"
proof (induction k)
  case 0
  then show ?case using length_cursor_path [of b] by simp
next
  case (Suc k)
  have "butlast (take (length (opened b) - k) (cursor_path b))
        = take (length (opened b) - Suc k) (cursor_path b)"
    using length_cursor_path [of b] by (simp add: butlast_take)
  with Suc show ?case by (simp add: cursor_path_move_up)
qed

lemma walk_up_is_funpow: "\<exists>k. walk_up tag b = (move_up ^^ k) b"
proof -
  let ?ns = "map f_name (opened b)"
  let ?P = "\<lambda>n. lower n \<noteq> tag"
  have 1: "?ns = takeWhile ?P ?ns @ dropWhile ?P ?ns" by simp
  have 2: "\<forall>n\<in>set (takeWhile ?P ?ns). lower n \<noteq> tag"
    by (metis (mono_tags, lifting) set_takeWhileD)
  have 3: "dropWhile ?P ?ns = [] \<or> lower (hd (dropWhile ?P ?ns)) = tag"
    by (metis (mono_tags, lifting) hd_dropWhile)
  from walk_up_steps [OF 1 2 3] show ?thesis by blast
qed

lemma handle_endtag_is_funpow: "\<exists>k. handle_endtag tag b = (move_up ^^ k) b"
proof -
  obtain k where k: "walk_up (lower tag) b = (move_up ^^ k) b"
    using walk_up_is_funpow by blast
  show ?thesis
  proof (cases "opened (walk_up (lower tag) b) = []")
    case True
    then show ?thesis using k by (auto simp: handle_endtag_def)
  next
    case False
    then have "handle_endtag tag b = (move_up ^^ Suc k) b"
      using k by (simp add: handle_endtag_def)
    then show ?thesis by blast
  qed
qed

lemma handle_endtag_no_match:
  assumes "\<forall>f\<in>set (opened b). lower (f_name f) \<noteq> lower tag"
  shows "handle_endtag tag b = (move_up ^^ length (opened b)) b"
    and "opened (handle_endtag tag b) = []"
proof -
  have "walk_up (lower tag) b = (move_up ^^ length (map f_name (opened b))) b"
    by (rule walk_up_steps [where rnames = "[]"]) (use assms in auto)
  then have w: "walk_up (lower tag) b = (move_up ^^ length (opened b)) b" by simp
  have "map f_name (opened (walk_up (lower tag) b)) = []"
    unfolding w names_funpow by simp
  then have e: "opened (walk_up (lower tag) b) = []" by simp
  then show "handle_endtag tag b = (move_up ^^ length (opened b)) b"
    using w by (simp add: handle_endtag_def)
  show "opened (handle_endtag tag b) = []"
    using e by (simp add: handle_endtag_def)
qed

lemma handle_endtag_match:
  assumes "opened b = pre @ f # post"
    and "\<forall>g\<in>set pre. lower (f_name g) \<noteq> lower tag"
    and "lower (f_name f) = lower tag"
  shows "handle_endtag tag b = (move_up ^^ Suc (length pre)) b"
proof -
  have "walk_up (lower tag) b = (move_up ^^ length (map f_name pre)) b"
    by (rule walk_up_steps [where rnames = "map f_name (f # post)"]) (use assms in auto)
  then have w: "walk_up (lower tag) b = (move_up ^^ length pre) b" by simp
  have "map f_name (opened (walk_up (lower tag) b)) = map f_name (f # post)"
    unfolding w names_funpow using assms(1) by simp
  then have "opened (walk_up (lower tag) b) \<noteq> []" by auto
  then show ?thesis using w by (simp add: handle_endtag_def)
qed

text \<open>
  C1, as amended. An end tag never changes the tree and never raises. When no open
  element from the cursor up to the root has the name of the end tag (compared in lower
  case), the cursor ends at the root: every open element is left. When some open element
  has that name, the cursor moves to the parent of the nearest one: its position is the
  position of the cursor cut back to that parent, and the elements that remain open are
  those above the matched one.
\<close>

theorem handle_endtag_cursor:
  "root_node (handle_endtag tag b) = root_node b
   \<and> ((\<forall>f\<in>set (opened b). lower (f_name f) \<noteq> lower tag) \<longrightarrow>
        opened (handle_endtag tag b) = [] \<and> cursor_path (handle_endtag tag b) = [])
   \<and> (opened b = pre @ f # post \<and> (\<forall>g\<in>set pre. lower (f_name g) \<noteq> lower tag)
        \<and> lower (f_name f) = lower tag \<longrightarrow>
        cursor_path (handle_endtag tag b) = take (length post) (cursor_path b)
        \<and> map f_name (opened (handle_endtag tag b)) = map f_name post)"
proof (intro conjI impI)
  show "root_node (handle_endtag tag b) = root_node b"
    using handle_endtag_is_funpow [of tag b] by (auto simp: root_node_funpow)
next
  assume a: "\<forall>f\<in>set (opened b). lower (f_name f) \<noteq> lower tag"
  show "opened (handle_endtag tag b) = []"
    by (rule handle_endtag_no_match(2) [OF a])
  then show "cursor_path (handle_endtag tag b) = []"
    by (simp add: cursor_path_def)
next
  assume a: "opened b = pre @ f # post \<and> (\<forall>g\<in>set pre. lower (f_name g) \<noteq> lower tag)
        \<and> lower (f_name f) = lower tag"
  then have h: "handle_endtag tag b = (move_up ^^ Suc (length pre)) b"
    using handle_endtag_match by blast
  show "cursor_path (handle_endtag tag b) = take (length post) (cursor_path b)"
    unfolding h cursor_path_funpow using a by simp
  show "map f_name (opened (handle_endtag tag b)) = map f_name post"
    unfolding h names_funpow using a by simp
qed

text \<open>Equations that evaluate the builder on given tokens.\<close>

lemma walk_up_eval:
  "walk_up tag \<lparr>opened = [], root = r\<rparr> = \<lparr>opened = [], root = r\<rparr>"
  "walk_up tag \<lparr>opened = f # fs, root = r\<rparr> =
     (if lower (f_name f) \<noteq> tag then walk_up tag (move_up \<lparr>opened = f # fs, root = r\<rparr>)
      else \<lparr>opened = f # fs, root = r\<rparr>)"
  by (simp add: walk_up_Nil) (subst walk_up.simps, simp)

lemmas builder_eval = init_builder_def handle_starttag_def handle_startendtag_def
  handle_endtag_def handle_data_def handle_entityref_def handle_comment_def walk_up_eval
  move_up_def append_current_def add_child_def node_of_def new_node_def VOID_ELEMENTS_def
  lower_def str_def root_name_def Let_def

lemma div_p_open_eval:
  "div_p_open =
     \<lparr>opened = [\<lparr>f_name = str ''p'', f_attrs = [], f_children = []\<rparr>,
                 \<lparr>f_name = str ''div'', f_attrs = [], f_children = []\<rparr>],
      root = \<lparr>f_name = root_name, f_attrs = [], f_children = []\<rparr>\<rparr>"
  by (simp add: div_p_open_def builder_eval)

theorem handle_endtag_cursor_witness:
  "root_node (handle_endtag (str ''DIV'') div_p_open) = root_node div_p_open
   \<and> cursor_path (handle_endtag (str ''DIV'') div_p_open) = take 0 (cursor_path div_p_open)
   \<and> map f_name (opened (handle_endtag (str ''DIV'') div_p_open)) = []
   \<and> opened (handle_endtag (str ''span'') div_p_open) = []"
proof -
  have 1: "opened div_p_open
           = [\<lparr>f_name = str ''p'', f_attrs = [], f_children = []\<rparr>]
             @ \<lparr>f_name = str ''div'', f_attrs = [], f_children = []\<rparr> # []"
    by (simp add: div_p_open_eval)
  have 2: "\<forall>g\<in>set [\<lparr>f_name = str ''p'', f_attrs = [], f_children = []\<rparr>].
             lower (f_name g) \<noteq> lower (str ''DIV'')"
    by (simp add: lower_def str_def)
  have 3: "lower (f_name \<lparr>f_name = str ''div'', f_attrs = [], f_children = []\<rparr>)
           = lower (str ''DIV'')"
    by (simp add: lower_def str_def)
  have 4: "\<forall>f\<in>set (opened div_p_open). lower (f_name f) \<noteq> lower (str ''span'')"
    by (simp add: div_p_open_eval lower_def str_def)
  show ?thesis
    using handle_endtag_cursor [of "str ''DIV''" div_p_open
        "[\<lparr>f_name = str ''p'', f_attrs = [], f_children = []\<rparr>]"
        "\<lparr>f_name = str ''div'', f_attrs = [], f_children = []\<rparr>" "[]"]
      handle_endtag_cursor [of "str ''span''" div_p_open]
      1 2 3 4
    by simp
qed

text \<open>
  C1 as the specification states it fails. After \<open><div><p>\<close> the cursor is the \<open>p\<close>
  element, at position \<open>[0, 0]\<close>, and no open element is called \<open>span\<close>; the end tag
  \<open></span>\<close> does not leave the cursor where it is but moves it to the root.
\<close>

theorem handle_endtag_unmatched_counterexample:
  "map f_name (opened div_p_open) = [str ''p'', str ''div'']
   \<and> current_name div_p_open = str ''p'' \<and> cursor_path div_p_open = [0, 0]
   \<and> current_name (handle_endtag (str ''span'') div_p_open) = root_name
   \<and> cursor_path (handle_endtag (str ''span'') div_p_open) = []
   \<and> handle_endtag (str ''span'') div_p_open \<noteq> div_p_open"
  by (simp add: div_p_open_eval current_name_def cursor_path_def builder_eval)

section \<open>decode\_contents and parsing again\<close>

lemmas query_eval = soup_of_events_def root_node_def find_first_def find_all_def bind_def
  match_name_def match_attrs_def first_p_def decode_contents_def render_contents_def
  render_attrs_def

lemma escaped_p_eval:
  "escaped_p =
     Tag (Ref (Node (str ''p'') []
                 [Text (str ''<''), Text (str ''b''), Text (str ''>''), Text (str ''x''),
                  Text (str ''<''), Text (str ''/b''), Text (str ''>'')])
              0
              (Some (Ref (Node root_name [] [Elem (Node (str ''p'') []
                 [Text (str ''<''), Text (str ''b''), Text (str ''>''), Text (str ''x''),
                  Text (str ''<''), Text (str ''/b''), Text (str ''>'')])]) 0 None)))"
  by (simp add: escaped_p_def escaped_events_def lt_gt_def query_eval builder_eval)

lemma element_p_eval:
  "element_p =
     Tag (Ref (Node (str ''p'') [] [Elem (Node (str ''b'') [] [Text (str ''x'')])])
              0
              (Some (Ref (Node root_name [] [Elem (Node (str ''p'') []
                 [Elem (Node (str ''b'') [] [Text (str ''x'')])])]) 0 None)))"
  by (simp add: element_p_def element_events_def lt_gt_def query_eval builder_eval)

text \<open>
  C4 fails on the code. The paragraph of \<open><p>&lt;b&gt;x&lt;/b&gt;</p>\<close> has text children
  only, the paragraph of \<open><p><b>x</b></p>\<close> has an element child, and \<open>decode_contents\<close>
  returns the same string \<open><b>x</b>\<close> for both, because text children are written out
  without escaping. So whatever a parser makes of that string, it cannot give back the
  elements of both: serialising the first paragraph and parsing again does not preserve
  its elements.
\<close>

theorem decode_contents_loses_escaping:
  "decode_contents escaped_p = str ''<b>x</b>''
   \<and> decode_contents element_p = str ''<b>x</b>''
   \<and> elements_of_children (children (self (node_ref_of escaped_p))) = []
   \<and> elements_of_children (children (self (node_ref_of element_p)))
       = [Element (str ''b'') [] []]
   \<and> \<not> (\<exists>reparse :: pystr \<Rightarrow> element list.
          reparse (decode_contents escaped_p)
            = elements_of_children (children (self (node_ref_of escaped_p)))
          \<and> reparse (decode_contents element_p)
            = elements_of_children (children (self (node_ref_of element_p))))"
proof -
  have 1: "decode_contents escaped_p = str ''<b>x</b>''"
    by (simp add: escaped_p_eval query_eval str_def VOID_ELEMENTS_def)
  have 2: "decode_contents element_p = str ''<b>x</b>''"
    by (simp add: element_p_eval query_eval str_def VOID_ELEMENTS_def)
  have 3: "elements_of_children (children (self (node_ref_of escaped_p))) = []"
    by (simp add: escaped_p_eval)
  have 4: "elements_of_children (children (self (node_ref_of element_p)))
           = [Element (str ''b'') [] []]"
    by (simp add: element_p_eval)
  have 5: "\<not> (\<exists>reparse :: pystr \<Rightarrow> element list.
          reparse (decode_contents escaped_p)
            = elements_of_children (children (self (node_ref_of escaped_p)))
          \<and> reparse (decode_contents element_p)
            = elements_of_children (children (self (node_ref_of element_p))))"
    unfolding 1 2 3 4 by auto
  from 1 2 3 4 5 show ?thesis by blast
qed

section \<open>Selector matching\<close>

lemma startswith_iff: "startswith s p \<longleftrightarrow> (\<exists>r. s = p @ r)"
  by (induction s p rule: startswith.induct) auto

lemma contains_iff: "contains a b \<longleftrightarrow> (\<exists>before after. b = before @ a @ after)"
proof (induction b)
  case Nil
  then show ?case by auto
next
  case (Cons c cs)
  show ?case
  proof
    assume "contains a (c # cs)"
    then consider "startswith (c # cs) a" | "contains a cs" by auto
    then show "\<exists>before after. c # cs = before @ a @ after"
    proof cases
      case 1
      then obtain r where "c # cs = a @ r" by (auto simp: startswith_iff)
      then have "c # cs = [] @ a @ r" by simp
      then show ?thesis by blast
    next
      case 2
      then obtain p q where "cs = p @ a @ q" using Cons.IH by blast
      then have "c # cs = (c # p) @ a @ q" by simp
      then show ?thesis by blast
    qed
  next
    assume "\<exists>before after. c # cs = before @ a @ after"
    then obtain p q where pq: "c # cs = p @ a @ q" by blast
    show "contains a (c # cs)"
    proof (cases p)
      case Nil
      then have "startswith (c # cs) a" using pq by (auto simp: startswith_iff)
      then show ?thesis by simp
    next
      case (Cons d p')
      then have "cs = p' @ a @ q" using pq by simp
      then have "contains a cs" using Cons.IH by blast
      then show ?thesis by simp
    qed
  qed
qed

lemma classes_present_iff: "classes_present cls ncs \<longleftrightarrow> (\<forall>c\<in>set cls. c \<in> set ncs)"
  by (induction cls) auto

lemma truthy_value_of: "truthy v \<Longrightarrow> v = Some (value_of v)"
  by (cases v) (auto simp: value_of_def)

lemma truthy_the: "truthy v \<Longrightarrow> the v = value_of v"
  by (cases v) (auto simp: value_of_def)

lemma class_clause_code:
  "class_clause s n \<longleftrightarrow>
     \<not> (case sel_classes s of
          None \<Rightarrow> False
        | Some cls \<Rightarrow> cls \<noteq> [] \<and>
            \<not> classes_present cls
                (split_ws (case dict_get (attrs n) (str ''class'') of
                             None \<Rightarrow> [] | Some v \<Rightarrow> v)))"
proof (cases "sel_classes s")
  case None
  then show ?thesis by (simp add: class_clause_def)
next
  case (Some cls)
  have "(case dict_get (attrs n) (str ''class'') of None \<Rightarrow> [] | Some v \<Rightarrow> v)
        = value_of (dict_get (attrs n) (str ''class''))"
    by (simp add: value_of_def)
  with Some show ?thesis
    by (cases cls) (simp_all add: class_clause_def classes_present_iff)
qed

lemma attr_clause_code:
  "attr_clause s n \<longleftrightarrow>
     (if truthy (sel_attr_name s) then
        (case dict_get (attrs n) (the (sel_attr_name s)) of
           None \<Rightarrow> False
         | Some attr_val \<Rightarrow>
             if sel_attr_op s = Some (str ''='')
             then attr_val = (case sel_attr_value s of None \<Rightarrow> [] | Some v \<Rightarrow> v)
             else if sel_attr_op s = Some (str ''*='') \<and> truthy (sel_attr_value s)
             then contains (the (sel_attr_value s)) attr_val
             else True)
      else True)"
proof (cases "truthy (sel_attr_name s)")
  case False
  then show ?thesis by (simp add: attr_clause_def)
next
  case True
  then have nm: "the (sel_attr_name s) = value_of (sel_attr_name s)"
    by (rule truthy_the)
  have ne: "str ''='' \<noteq> str ''*=''" by (simp add: str_def)
  show ?thesis
  proof (cases "dict_get (attrs n) (value_of (sel_attr_name s))")
    case None
    then show ?thesis using True by (simp add: attr_clause_def nm)
  next
    case (Some v)
    have sub: "(\<exists>before after. v = before @ value_of (sel_attr_value s) @ after)
               \<longleftrightarrow> (if truthy (sel_attr_value s) then contains (the (sel_attr_value s)) v
                    else True)"
    proof (cases "truthy (sel_attr_value s)")
      case True
      then have "the (sel_attr_value s) = value_of (sel_attr_value s)"
        by (rule truthy_the)
      then show ?thesis using True by (simp add: contains_iff)
    next
      case False
      then have "value_of (sel_attr_value s) = []"
        by (cases "sel_attr_value s") (auto simp: value_of_def)
      moreover have "v = [] @ [] @ v" by simp
      ultimately show ?thesis using False by (metis (full_types))
    qed
    have val: "(case sel_attr_value s of None \<Rightarrow> [] | Some v \<Rightarrow> v) = value_of (sel_attr_value s)"
      by (simp add: value_of_def)
    show ?thesis
      using True Some ne sub by (auto simp: attr_clause_def nm val)
  qed
qed

text \<open>
  C6. The root node never matches. Any other node matches exactly when it satisfies every
  present clause: the tag compared in lower case, the id and every class token as exact
  strings, and the attribute test (presence, equality of exact strings, or for the
  operator \<open>*=\<close> the occurrence of the value as a substring); absent clauses hold
  vacuously, so the selector without constraints matches every node but the root.
\<close>

theorem matches_iff_clauses:
  "(matches s n \<longleftrightarrow>
      name n \<noteq> root_name \<and> tag_clause s n \<and> id_clause s n \<and> class_clause s n
      \<and> attr_clause s n)
   \<and> (matches no_constraints n \<longleftrightarrow> name n \<noteq> root_name)"
proof
  define A where "A \<longleftrightarrow> truthy (sel_tag s) \<and> lower (name n) \<noteq> lower (the (sel_tag s))"
  define B where "B \<longleftrightarrow> truthy (sel_id s) \<and> dict_get (attrs n) (str ''id'') \<noteq> sel_id s"
  define C where "C \<longleftrightarrow>
     (case sel_classes s of
        None \<Rightarrow> False
      | Some cls \<Rightarrow> cls \<noteq> [] \<and>
          \<not> classes_present cls
              (split_ws (case dict_get (attrs n) (str ''class'') of
                           None \<Rightarrow> [] | Some v \<Rightarrow> v)))"
  define D where "D \<longleftrightarrow>
     (if truthy (sel_attr_name s) then
        (case dict_get (attrs n) (the (sel_attr_name s)) of
           None \<Rightarrow> False
         | Some attr_val \<Rightarrow>
             if sel_attr_op s = Some (str ''='')
             then attr_val = (case sel_attr_value s of None \<Rightarrow> [] | Some v \<Rightarrow> v)
             else if sel_attr_op s = Some (str ''*='') \<and> truthy (sel_attr_value s)
             then contains (the (sel_attr_value s)) attr_val
             else True)
      else True)"
  have t: "tag_clause s n \<longleftrightarrow> \<not> A"
    using truthy_the [of "sel_tag s"] by (auto simp: tag_clause_def A_def)
  have i: "id_clause s n \<longleftrightarrow> \<not> B"
    by (auto simp: id_clause_def B_def)
  have c: "class_clause s n \<longleftrightarrow> \<not> C"
    unfolding C_def by (rule class_clause_code)
  have d: "attr_clause s n \<longleftrightarrow> D"
    unfolding D_def by (rule attr_clause_code)
  have m: "matches s n \<longleftrightarrow>
      (if name n = root_name then False
       else if A then False
       else if B then False
       else if C then False
       else D)"
    unfolding A_def B_def C_def D_def matches_def by (rule refl)
  show "matches s n \<longleftrightarrow>
      name n \<noteq> root_name \<and> tag_clause s n \<and> id_clause s n \<and> class_clause s n
      \<and> attr_clause s n"
    unfolding m t i c d by simp
  show "matches no_constraints n \<longleftrightarrow> name n \<noteq> root_name"
    by (simp add: matches_def no_constraints_def)
qed

theorem matches_iff_clauses_witness:
  "matches div_a_href div_node \<and> name div_node \<noteq> root_name \<and> tag_clause div_a_href div_node
   \<and> id_clause div_a_href div_node \<and> class_clause div_a_href div_node
   \<and> attr_clause div_a_href div_node \<and> matches no_constraints div_node"
proof -
  have "matches div_a_href div_node"
    by (simp add: matches_def div_a_href_def div_node_def dict_get_def str_eval lower_def
        root_name_def)
  moreover have "name div_node \<noteq> root_name"
    by (simp add: div_node_def root_name_def str_def)
  ultimately show ?thesis
    using matches_iff_clauses [of div_a_href div_node] by blast
qed

section \<open>find and find\_all\<close>

lemma match_name_safe: "safe_name nm \<Longrightarrow> match_name r nm = Inr (name_matches r nm)"
proof (cases nm)
  case (NameCallable f)
  assume "safe_name nm"
  then have s: "\<forall>t e. f t = Inl e \<longrightarrow> is_Exception e"
    using NameCallable by (simp add: safe_name_def)
  show ?thesis
  proof (cases "f (Tag r)")
    case (Inl e)
    then have "is_Exception e" using s by blast
    then show ?thesis using Inl NameCallable by (simp add: match_name_def name_matches_def)
  next
    case (Inr b)
    then show ?thesis using NameCallable by (auto simp: match_name_def name_matches_def)
  qed
qed (simp_all add: match_name_def name_matches_def)

lemma match_attr_items_safe:
  "list_all safe_attr items \<Longrightarrow>
   match_attr_items r items = Inr (list_all (attr_matches r) items)"
proof (induction items)
  case Nil
  then show ?case by simp
next
  case (Cons item items)
  obtain key expected where item: "item = (key, expected)" by (cases item)
  have rest: "match_attr_items r items = Inr (list_all (attr_matches r) items)"
    using Cons by simp
  show ?case
  proof (cases expected)
    case (AttrValue x)
    have "attr_matches r item \<longleftrightarrow> dict_get (attrs (self r)) key = x"
      using item AttrValue by (simp add: attr_matches_def)
    then show ?thesis using rest item AttrValue by (simp add: Let_def)
  next
    case (AttrCallable g)
    have hd: "attr_matches r item \<longleftrightarrow> g (dict_get (attrs (self r)) key) = Inr True"
      using item AttrCallable by (simp add: attr_matches_def)
    have s: "\<forall>v e. g v = Inl e \<longrightarrow> is_Exception e"
      using Cons.prems item AttrCallable by (simp add: safe_attr_def)
    show ?thesis
    proof (cases "g (dict_get (attrs (self r)) key)")
      case (Inl e)
      then have "is_Exception e" using s by blast
      then show ?thesis
        using Inl item AttrCallable hd by (simp add: Let_def)
    next
      case (Inr b)
      then show ?thesis
        using rest item AttrCallable hd by (auto simp: Let_def)
    qed
  qed
qed

lemma match_attrs_safe: "safe_attrs at \<Longrightarrow> match_attrs r at = Inr (attrs_match r at)"
proof (cases at)
  case None
  then show ?thesis by (simp add: match_attrs_def attrs_match_def)
next
  case (Some items)
  assume "safe_attrs at"
  then have "list_all safe_attr items" using Some by (simp add: safe_attrs_def)
  then have "match_attr_items r items = Inr (list_all (attr_matches r) items)"
    by (rule match_attr_items_safe)
  then show ?thesis
    using Some by (cases items) (simp_all add: match_attrs_def attrs_match_def)
qed

lemma find_loop_safe:
  "safe_name nm \<Longrightarrow> safe_attrs at \<Longrightarrow>
   find_loop rs nm at found
   = Inr (found @ map Tag (filter (\<lambda>r. name_matches r nm \<and> attrs_match r at) rs))"
  by (induction rs arbitrary: found) (simp_all add: bind_def match_name_safe match_attrs_safe)

lemma find_all_total:
  "safe_name nm \<Longrightarrow> safe_attrs at \<Longrightarrow> find_all s nm at = Inr (map Tag (passing s nm at))"
  by (simp add: find_all_def passing_def find_loop_safe)

lemma find_first_total:
  "safe_name nm \<Longrightarrow> safe_attrs at \<Longrightarrow>
   find_first s nm at = Inr (case passing s nm at of [] \<Rightarrow> None | r # rest \<Rightarrow> Some (Tag r))"
  by (cases "passing s nm at") (simp_all add: find_first_def find_all_total bind_def)

lemma safe_name_simps: "safe_name NameNone" "safe_name (NameStr x)"
  by (simp_all add: safe_name_def)

lemma safe_attrs_None: "safe_attrs None"
  by (simp add: safe_attrs_def)

text \<open>The generator within the recursion limit.\<close>

lemma iter_within_fits:
  "depth (self r) \<le> limit \<Longrightarrow> iter_nodes_within limit r inc = (iter_nodes r inc, None)"
  "depth_children cs \<le> limit \<Longrightarrow> iter_children_within limit r cs i = (iter_children r cs i, None)"
proof (induction limit r inc and limit r cs i rule: iter_nodes_within_iter_children_within.induct)
  case (1 r include_self)
  then show ?case by (cases "self r") simp
next
  case (2 k r include_self)
  have "depth_children (children (self r)) \<le> k"
    using 2(2) by (cases "self r") simp
  then have "iter_children_within k r (children (self r)) 0
             = (iter_children r (children (self r)) 0, None)"
    by (rule 2(1))
  then show ?case by (simp del: iter_children_within.simps)
next
  case (3 k r i)
  then show ?case by simp
next
  case (4 k r n cs i)
  have a: "iter_nodes_within k (Ref n i (Some r)) True = (iter_nodes (Ref n i (Some r)) True, None)"
    using 4 by simp
  have b: "iter_children_within k r cs (Suc i) = (iter_children r cs (Suc i), None)"
    using 4(2) [OF a [symmetric] refl] 4(3) by simp
  show ?case
    using a b by (simp del: iter_nodes.simps iter_nodes_within.simps)
next
  case (5 k r s cs i)
  then show ?case by simp
qed

lemma find_all_within_fits:
  "depth (self (node_ref_of s)) \<le> limit \<Longrightarrow> find_all_within limit s nm at = find_all s nm at"
  by (cases "find_loop (iter_nodes (node_ref_of s) False) nm at []")
     (simp_all add: find_all_within_def find_all_def iter_within_fits bind_def
        del: iter_nodes.simps)

lemma find_within_fits:
  "depth (self (node_ref_of s)) \<le> limit \<Longrightarrow> find_within limit s nm at = find_first s nm at"
  by (simp add: find_within_def find_first_def find_all_within_fits)

lemma nested_divs_too_deep:
  "limit \<le> k \<Longrightarrow> snd (iter_nodes_within limit (Ref (Node nm at (nested_divs k)) i p) inc)
                 = Some RecursionError"
proof (induction limit arbitrary: k nm at i p inc)
  case 0
  then show ?case by simp
next
  case (Suc limit)
  then obtain k' where k: "k = Suc k'" and le: "limit \<le> k'" by (cases k) auto
  let ?r = "Ref (Node nm at (nested_divs k)) i p"
  let ?c = "Ref (Node (str ''div'') [] (nested_divs k')) 0 (Some ?r)"
  obtain first err where f: "iter_nodes_within limit ?c True = (first, err)"
    by (cases "iter_nodes_within limit ?c True")
  have "snd (iter_nodes_within limit ?c True) = Some RecursionError"
    by (rule Suc.IH [OF le])
  then have err: "err = Some RecursionError" using f by simp
  have "iter_children_within limit ?r (nested_divs k) 0 = (first, Some RecursionError)"
    using f err by (simp add: k del: iter_nodes_within.simps)
  then show ?case by (simp del: iter_children_within.simps)
qed

text \<open>
  C5, as amended. When the tree of the document or tag is no deeper than the recursion
  limit allows (\<open>limit\<close> nested generators) and the callables of the filter raise nothing
  but instances of \<open>Exception\<close>, \<open>find_all\<close> returns (it does not raise) the tags of the
  nodes that pass the filters, in document order, and \<open>find\<close> returns the first of them,
  or \<open>None\<close> when there is none. A node passes only if each callable returns a true value
  for it, so a callable that raises counts as a non-match.
\<close>

theorem find_within_limits:
  "(depth (self (node_ref_of s)) \<le> limit \<and> safe_name nm \<and> safe_attrs at \<longrightarrow>
      find_all_within limit s nm at = Inr (map Tag (passing s nm at))
      \<and> find_within limit s nm at
          = Inr (case passing s nm at of [] \<Rightarrow> None | r # rest \<Rightarrow> Some (Tag r))
      \<and> (passing s nm at = [] \<longrightarrow> find_within limit s nm at = Inr None))
   \<and> (f (Tag r) = Inl e \<longrightarrow> Tag r \<notin> set (map Tag (passing s (NameCallable f) at)))
   \<and> (g (dict_get (attrs (self r)) key) = Inl e \<longrightarrow>
        Tag r \<notin> set (map Tag (passing s nm (Some [(key, AttrCallable g)]))))"
proof -
  have 1: "find_all_within limit s nm at = Inr (map Tag (passing s nm at))"
    and 2: "find_within limit s nm at
            = Inr (case passing s nm at of [] \<Rightarrow> None | r # rest \<Rightarrow> Some (Tag r))"
    if "depth (self (node_ref_of s)) \<le> limit" "safe_name nm" "safe_attrs at"
    using that by (simp_all add: find_all_within_fits find_within_fits find_all_total find_first_total)
  have 3: "Tag r \<notin> set (map Tag (passing s (NameCallable f) at))" if "f (Tag r) = Inl e"
    using that by (auto simp: passing_def name_matches_def)
  have 4: "Tag r \<notin> set (map Tag (passing s nm (Some [(key, AttrCallable g)])))"
    if "g (dict_get (attrs (self r)) key) = Inl e"
    using that by (auto simp: passing_def attrs_match_def attr_matches_def)
  show ?thesis
    using 1 2 3 4 by (auto split: list.splits)
qed

lemma element_doc_eval:
  "element_doc =
     BeautifulSoup (Ref (Node root_name [] [Elem (Node (str ''p'') []
                 [Elem (Node (str ''b'') [] [Text (str ''x'')])])]) 0 None)"
  by (simp add: element_doc_def element_events_def lt_gt_def query_eval builder_eval)

lemma element_doc_depth: "depth (self (node_ref_of element_doc)) \<le> 1000"
  by (simp add: element_doc_eval)

lemma safe_raises_on_b: "safe_name (NameCallable raises_on_b)"
  by (simp add: safe_name_def raises_on_b_def)

lemma safe_always_raises: "safe_name (NameCallable always_raises)"
  by (simp add: safe_name_def always_raises_def)

theorem find_within_limits_witness:
  "find_all_within 1000 element_doc (NameCallable raises_on_b) None
     = Inr [Tag (Ref (Node (str ''p'') [] [Elem (Node (str ''b'') [] [Text (str ''x'')])]) 0
                  (Some (node_ref_of element_doc)))]
   \<and> find_within 1000 element_doc (NameCallable always_raises) None = Inr None"
proof -
  have 1: "passing element_doc (NameCallable raises_on_b) None
           = [Ref (Node (str ''p'') [] [Elem (Node (str ''b'') [] [Text (str ''x'')])]) 0
                  (Some (node_ref_of element_doc))]"
    by (simp add: passing_def element_doc_eval name_matches_def attrs_match_def raises_on_b_def
        root_name_def str_def)
  have 2: "passing element_doc (NameCallable always_raises) None = []"
    by (simp add: passing_def name_matches_def always_raises_def)
  show ?thesis
    using find_within_limits [of element_doc 1000 "NameCallable raises_on_b" None]
      find_within_limits [of element_doc 1000 "NameCallable always_raises" None]
      1 2 element_doc_depth safe_raises_on_b safe_always_raises safe_attrs_None
    by simp
qed

text \<open>
  C5 as the specification states it fails. A callable that raises \<open>SystemExit\<close> is not
  caught by \<open>except Exception\<close>: \<open>find_all\<close> and \<open>find\<close> raise it. And on the document of
  \<open><div>\<close> written 1000 times, with 1000 nested generators allowed, the generator
  \<open>_iter_nodes\<close> raises \<open>RecursionError\<close>, which \<open>find_all\<close> and \<open>find\<close> do not catch,
  whatever the filter.
\<close>

theorem find_raises_counterexample:
  "find_all_within 1000 element_doc (NameCallable exits) None = Inl SystemExit
   \<and> find_within 1000 element_doc (NameCallable exits) None = Inl SystemExit
   \<and> find_all_within 1000 (deep_doc 1000) NameNone None = Inl RecursionError
   \<and> find_within 1000 (deep_doc 1000) NameNone None = Inl RecursionError"
proof -
  have "find_all element_doc (NameCallable exits) None = Inl SystemExit"
    by (simp add: find_all_def element_doc_eval match_name_def exits_def bind_def root_name_def
        str_def)
  then have 1: "find_all_within 1000 element_doc (NameCallable exits) None = Inl SystemExit"
    using find_all_within_fits [OF element_doc_depth] by simp
  obtain yielded err where y: "iter_nodes_within 1000 (node_ref_of (deep_doc 1000)) False
                               = (yielded, err)"
    by (cases "iter_nodes_within 1000 (node_ref_of (deep_doc 1000)) False")
  have "snd (iter_nodes_within 1000 (node_ref_of (deep_doc 1000)) False) = Some RecursionError"
    unfolding deep_doc_def node_ref_of.simps by (rule nested_divs_too_deep) simp
  then have err: "err = Some RecursionError" using y by simp
  have 2: "find_all_within 1000 (deep_doc 1000) NameNone None = Inl RecursionError"
    unfolding find_all_within_def y err
    by (simp add: find_loop_safe safe_name_simps safe_attrs_None bind_def)
  show ?thesis
    using 1 2 by (simp add: find_within_def bind_def)
qed

section \<open>select\<close>

lemma append_same_suffix:
  "p @ i # s = p' @ j # s \<Longrightarrow> i = (j :: nat)"
  by (metis append_eq_append_conv length_Cons list.inject)

lemma iter_idents:
  "distinct (map ident (iter_nodes r inc))
   \<and> (\<forall>x\<in>set (iter_nodes r inc). \<exists>p. ident x = p @ ident r)"
  "distinct (map ident (iter_children r cs i))
   \<and> (\<forall>x\<in>set (iter_children r cs i). \<exists>p j. ident x = p @ j # ident r \<and> i \<le> j)"
proof (induction r inc and r cs i rule: iter_nodes_iter_children.induct)
  case (1 r include_self)
  let ?below = "iter_children r (children (self r)) 0"
  have d: "distinct (map ident ?below)" using 1 by simp
  have s: "\<forall>x\<in>set ?below. \<exists>p j. ident x = p @ j # ident r" using 1 by blast
  have ne: "ident r \<notin> ident ` set ?below"
  proof
    assume "ident r \<in> ident ` set ?below"
    then obtain x where "x \<in> set ?below" "ident r = ident x" by auto
    with s obtain p j where "ident r = p @ j # ident r" by metis
    then have "length (ident r) = length (p @ j # ident r)" by simp
    then show False by simp
  qed
  have e: "iter_nodes r include_self
           = (if include_self \<and> name (self r) \<noteq> root_name then [r] else []) @ ?below"
    by (rule iter_nodes.simps)
  have "\<exists>p. ident x = p @ ident r" if "x \<in> set ?below" for x
  proof -
    from s that obtain p j where "ident x = p @ j # ident r" by blast
    then have "ident x = (p @ [j]) @ ident r" by simp
    then show ?thesis by blast
  qed
  then show ?case
    unfolding e using d ne by auto
next
  case (2 r i)
  then show ?case by simp
next
  case (3 r n cs i)
  let ?c = "Ref n i (Some r)"
  have e: "iter_children r (Elem n # cs) i = iter_nodes ?c True @ iter_children r cs (Suc i)"
    by simp
  have d1: "distinct (map ident (iter_nodes ?c True))" using 3 by blast
  have s1: "\<forall>x\<in>set (iter_nodes ?c True). \<exists>p. ident x = p @ i # ident r"
    using 3 by simp
  have d2: "distinct (map ident (iter_children r cs (Suc i)))" using 3 by blast
  have s2: "\<forall>x\<in>set (iter_children r cs (Suc i)). \<exists>p j. ident x = p @ j # ident r \<and> Suc i \<le> j"
    using 3 by blast
  have disj: "ident ` set (iter_nodes ?c True) \<inter> ident ` set (iter_children r cs (Suc i)) = {}"
  proof (rule ccontr)
    assume "ident ` set (iter_nodes ?c True) \<inter> ident ` set (iter_children r cs (Suc i)) \<noteq> {}"
    then obtain x y where x: "x \<in> set (iter_nodes ?c True)"
      and y: "y \<in> set (iter_children r cs (Suc i))" and xy: "ident x = ident y"
      by auto
    from s1 x obtain p where px: "ident x = p @ i # ident r" by blast
    from s2 y obtain p' j where py: "ident y = p' @ j # ident r" and j: "Suc i \<le> j" by blast
    from px py xy have "i = j" using append_same_suffix by metis
    with j show False by simp
  qed
  have s: "\<exists>p j. ident x = p @ j # ident r \<and> i \<le> j"
    if "x \<in> set (iter_nodes ?c True) \<union> set (iter_children r cs (Suc i))" for x
  proof -
    from that consider "x \<in> set (iter_nodes ?c True)" | "x \<in> set (iter_children r cs (Suc i))"
      by blast
    then show ?thesis
    proof cases
      case 1
      with s1 show ?thesis by blast
    next
      case 2
      with s2 obtain p j where "ident x = p @ j # ident r" "Suc i \<le> j" by blast
      then have "ident x = p @ j # ident r \<and> i \<le> j" by simp
      then show ?thesis by blast
    qed
  qed
  show ?case
    unfolding e using d1 d2 disj s by (simp del: iter_nodes.simps)
next
  case (4 r s cs i)
  have e: "iter_children r (Text s # cs) i = iter_children r cs (Suc i)" by simp
  have "\<exists>p j. ident x = p @ j # ident r \<and> i \<le> j" if "x \<in> set (iter_children r cs (Suc i))" for x
  proof -
    from 4 that obtain p j where "ident x = p @ j # ident r" "Suc i \<le> j" by blast
    then have "ident x = p @ j # ident r \<and> i \<le> j" by simp
    then show ?thesis by blast
  qed
  then show ?case unfolding e using 4 by blast
qed

lemma distinct_iter_nodes: "distinct (map ident (iter_nodes r inc))"
  using iter_idents(1) by blast

text \<open>The iteration visits exactly the descendants, in document order.\<close>

lemma ref_at_Cons:
  "ref_at r (j # p) = Some x \<longleftrightarrow>
     (\<exists>n. j < length (children (self r)) \<and> children (self r) ! j = Elem n
          \<and> ref_at (Ref n j (Some r)) p = Some x)"
  by (auto split: child.splits)

lemma iter_sets:
  "set (iter_nodes r inc)
     = {x. \<exists>p. (inc \<or> p \<noteq> []) \<and> ref_at r p = Some x \<and> name (self x) \<noteq> root_name}"
  "set (iter_children r cs i)
     = {x. \<exists>j n p. j < length cs \<and> cs ! j = Elem n
              \<and> ref_at (Ref n (i + j) (Some r)) p = Some x \<and> name (self x) \<noteq> root_name}"
proof (induction r inc and r cs i rule: iter_nodes_iter_children.induct)
  case (1 r include_self)
  let ?cs = "children (self r)"
  have e: "iter_nodes r include_self
           = (if include_self \<and> name (self r) \<noteq> root_name then [r] else [])
             @ iter_children r ?cs 0"
    by (rule iter_nodes.simps)
  have below: "set (iter_children r ?cs 0)
     = {x. \<exists>j n p. j < length ?cs \<and> ?cs ! j = Elem n
              \<and> ref_at (Ref n j (Some r)) p = Some x \<and> name (self x) \<noteq> root_name}"
    using 1 by simp
  show ?case
  proof (intro set_eqI iffI)
    fix x assume "x \<in> set (iter_nodes r include_self)"
    then consider "include_self" "name (self r) \<noteq> root_name" "x = r"
      | "x \<in> set (iter_children r ?cs 0)"
      unfolding e by (auto split: if_splits)
    then show "x \<in> {x. \<exists>p. (include_self \<or> p \<noteq> []) \<and> ref_at r p = Some x
                        \<and> name (self x) \<noteq> root_name}"
    proof cases
      case 1
      then have "(include_self \<or> [] \<noteq> ([] :: nat list)) \<and> ref_at r [] = Some x
                 \<and> name (self x) \<noteq> root_name"
        by simp
      then show ?thesis by blast
    next
      case 2
      then obtain j n p where "j < length ?cs" "?cs ! j = Elem n"
        "ref_at (Ref n j (Some r)) p = Some x" "name (self x) \<noteq> root_name"
        unfolding below by blast
      then have "(include_self \<or> j # p \<noteq> []) \<and> ref_at r (j # p) = Some x
                 \<and> name (self x) \<noteq> root_name"
        by (simp add: ref_at_Cons)
      then show ?thesis by blast
    qed
  next
    fix x assume "x \<in> {x. \<exists>p. (include_self \<or> p \<noteq> []) \<and> ref_at r p = Some x
                        \<and> name (self x) \<noteq> root_name}"
    then obtain p where p: "include_self \<or> p \<noteq> []" "ref_at r p = Some x"
      "name (self x) \<noteq> root_name"
      by blast
    show "x \<in> set (iter_nodes r include_self)"
    proof (cases p)
      case Nil
      then have "x = r" "include_self" using p by auto
      then show ?thesis unfolding e using p(3) by simp
    next
      case (Cons j q)
      have "ref_at r (j # q) = Some x" using p(2) Cons by simp
      then obtain n where "j < length ?cs" "?cs ! j = Elem n"
        "ref_at (Ref n j (Some r)) q = Some x"
        unfolding ref_at_Cons by blast
      then have "x \<in> set (iter_children r ?cs 0)"
        unfolding below using p(3) by blast
      then show ?thesis unfolding e by simp
    qed
  qed
next
  case (2 r i)
  then show ?case by simp
next
  case (3 r n cs i)
  let ?c = "Ref n i (Some r)"
  have e: "iter_children r (Elem n # cs) i = iter_nodes ?c True @ iter_children r cs (Suc i)"
    by simp
  have first: "set (iter_nodes ?c True)
               = {x. \<exists>p. ref_at ?c p = Some x \<and> name (self x) \<noteq> root_name}"
    using 3 by simp
  have later: "set (iter_children r cs (Suc i))
     = {x. \<exists>j m p. j < length cs \<and> cs ! j = Elem m
              \<and> ref_at (Ref m (Suc i + j) (Some r)) p = Some x \<and> name (self x) \<noteq> root_name}"
    using 3 by simp
  show ?case
  proof (intro set_eqI iffI)
    fix x assume "x \<in> set (iter_children r (Elem n # cs) i)"
    then consider "x \<in> set (iter_nodes ?c True)" | "x \<in> set (iter_children r cs (Suc i))"
      unfolding e by (auto simp del: iter_nodes.simps)
    then show "x \<in> {x. \<exists>j m p. j < length (Elem n # cs) \<and> (Elem n # cs) ! j = Elem m
              \<and> ref_at (Ref m (i + j) (Some r)) p = Some x \<and> name (self x) \<noteq> root_name}"
    proof cases
      case 1
      then obtain p where "ref_at ?c p = Some x" "name (self x) \<noteq> root_name"
        unfolding first by blast
      then have "0 < length (Elem n # cs) \<and> (Elem n # cs) ! 0 = Elem n
              \<and> ref_at (Ref n (i + 0) (Some r)) p = Some x \<and> name (self x) \<noteq> root_name"
        by simp
      then show ?thesis by blast
    next
      case 2
      then obtain j m p where "j < length cs" "cs ! j = Elem m"
        "ref_at (Ref m (Suc i + j) (Some r)) p = Some x" "name (self x) \<noteq> root_name"
        unfolding later by blast
      then have "Suc j < length (Elem n # cs) \<and> (Elem n # cs) ! Suc j = Elem m
              \<and> ref_at (Ref m (i + Suc j) (Some r)) p = Some x \<and> name (self x) \<noteq> root_name"
        by simp
      then show ?thesis by blast
    qed
  next
    fix x assume "x \<in> {x. \<exists>j m p. j < length (Elem n # cs) \<and> (Elem n # cs) ! j = Elem m
              \<and> ref_at (Ref m (i + j) (Some r)) p = Some x \<and> name (self x) \<noteq> root_name}"
    then obtain j m p where j: "j < length (Elem n # cs)" "(Elem n # cs) ! j = Elem m"
      "ref_at (Ref m (i + j) (Some r)) p = Some x" "name (self x) \<noteq> root_name"
      by blast
    show "x \<in> set (iter_children r (Elem n # cs) i)"
    proof (cases j)
      case 0
      then have "ref_at ?c p = Some x" using j by simp
      then have "x \<in> set (iter_nodes ?c True)" unfolding first using j(4) by blast
      then show ?thesis unfolding e by (simp del: iter_nodes.simps)
    next
      case (Suc j')
      then have "j' < length cs" "cs ! j' = Elem m"
        "ref_at (Ref m (Suc i + j') (Some r)) p = Some x"
        using j by simp_all
      then have "x \<in> set (iter_children r cs (Suc i))" unfolding later using j(4) by blast
      then show ?thesis unfolding e by (simp del: iter_nodes.simps)
    qed
  qed
next
  case (4 r s cs i)
  have e: "iter_children r (Text s # cs) i = iter_children r cs (Suc i)" by simp
  have later: "set (iter_children r cs (Suc i))
     = {x. \<exists>j m p. j < length cs \<and> cs ! j = Elem m
              \<and> ref_at (Ref m (Suc i + j) (Some r)) p = Some x \<and> name (self x) \<noteq> root_name}"
    using 4 by simp
  show ?case
  proof (intro set_eqI iffI)
    fix x assume "x \<in> set (iter_children r (Text s # cs) i)"
    then obtain j m p where "j < length cs" "cs ! j = Elem m"
      "ref_at (Ref m (Suc i + j) (Some r)) p = Some x" "name (self x) \<noteq> root_name"
      unfolding e later by blast
    then have "Suc j < length (Text s # cs) \<and> (Text s # cs) ! Suc j = Elem m
              \<and> ref_at (Ref m (i + Suc j) (Some r)) p = Some x \<and> name (self x) \<noteq> root_name"
      by simp
    then show "x \<in> {x. \<exists>j m p. j < length (Text s # cs) \<and> (Text s # cs) ! j = Elem m
              \<and> ref_at (Ref m (i + j) (Some r)) p = Some x \<and> name (self x) \<noteq> root_name}"
      by blast
  next
    fix x assume "x \<in> {x. \<exists>j m p. j < length (Text s # cs) \<and> (Text s # cs) ! j = Elem m
              \<and> ref_at (Ref m (i + j) (Some r)) p = Some x \<and> name (self x) \<noteq> root_name}"
    then obtain j m p where j: "j < length (Text s # cs)" "(Text s # cs) ! j = Elem m"
      "ref_at (Ref m (i + j) (Some r)) p = Some x" "name (self x) \<noteq> root_name"
      by blast
    then obtain j' where "j = Suc j'" by (cases j) auto
    then have "j' < length cs" "cs ! j' = Elem m"
      "ref_at (Ref m (Suc i + j') (Some r)) p = Some x"
      using j by simp_all
    then show "x \<in> set (iter_children r (Text s # cs) i)"
      unfolding e later using j(4) by blast
  qed
qed

lemma set_iter_nodes: "set (iter_nodes r inc) = descendants r inc"
  unfolding descendants_def by (rule iter_sets(1))

lemma doc_before_below: "ident y = q @ j # ident r \<Longrightarrow> doc_before r y"
  by (simp add: doc_before_def lexord_append_rightI)

lemma doc_before_siblings:
  "ident x = q @ i # s \<Longrightarrow> ident y = q' @ j # s \<Longrightarrow> i < j \<Longrightarrow> doc_before x y"
  by (simp add: doc_before_def lexord_append_left_rightI)

lemma iter_sorted:
  "sorted_wrt doc_before (iter_nodes r inc)"
  "sorted_wrt doc_before (iter_children r cs i)"
proof (induction r inc and r cs i rule: iter_nodes_iter_children.induct)
  case (1 r include_self)
  let ?below = "iter_children r (children (self r)) 0"
  have e: "iter_nodes r include_self
           = (if include_self \<and> name (self r) \<noteq> root_name then [r] else []) @ ?below"
    by (rule iter_nodes.simps)
  have "doc_before r y" if "y \<in> set ?below" for y
  proof -
    from iter_idents(2) [of r "children (self r)" 0] that
    obtain q j where "ident y = q @ j # ident r" by blast
    then show ?thesis by (rule doc_before_below)
  qed
  then show ?case
    unfolding e using 1 by (simp add: sorted_wrt_append)
next
  case (2 r i)
  then show ?case by simp
next
  case (3 r n cs i)
  let ?c = "Ref n i (Some r)"
  have e: "iter_children r (Elem n # cs) i = iter_nodes ?c True @ iter_children r cs (Suc i)"
    by simp
  have "doc_before x y"
    if "x \<in> set (iter_nodes ?c True)" "y \<in> set (iter_children r cs (Suc i))" for x y
  proof -
    from iter_idents(1) [of ?c True] that(1) obtain q where "ident x = q @ ident ?c"
      by blast
    then have x: "ident x = q @ i # ident r" by simp
    from iter_idents(2) [of r cs "Suc i"] that(2)
    obtain q' j where y: "ident y = q' @ j # ident r" and j: "Suc i \<le> j" by blast
    from j have "i < j" by simp
    with x y show ?thesis by (rule doc_before_siblings)
  qed
  then show ?case
    unfolding e using 3 by (simp add: sorted_wrt_append del: iter_nodes.simps)
next
  case (4 r s cs i)
  then show ?case by simp
qed

text \<open>The inner loop, for an iteration whose nodes are pairwise different objects.\<close>

lemma select_nodes_result:
  "distinct (map ident it) \<Longrightarrow>
   select_nodes p it (results, seen)
   = (results @ map Tag (filter (\<lambda>r. ident r \<notin> seen \<and> matches p (self r)) it),
      seen \<union> ident ` {r \<in> set it. matches p (self r)})"
proof (induction it arbitrary: results seen)
  case Nil
  then show ?case by simp
next
  case (Cons r rs)
  have d: "distinct (map ident rs)" and nr: "ident r \<notin> ident ` set rs"
    using Cons.prems by auto
  show ?case
  proof (cases "ident r \<in> seen")
    case True
    then have "seen \<union> ident ` {x \<in> set (r # rs). matches p (self x)}
               = seen \<union> ident ` {x \<in> set rs. matches p (self x)}"
      by auto
    with True show ?thesis using Cons.IH [OF d] by simp
  next
    case False
    show ?thesis
    proof (cases "matches p (self r)")
      case True
      have f: "filter (\<lambda>x. ident x \<notin> insert (ident r) seen \<and> matches p (self x)) rs
               = filter (\<lambda>x. ident x \<notin> seen \<and> matches p (self x)) rs"
      proof (intro filter_cong refl)
        fix x assume "x \<in> set rs"
        then have "ident x \<noteq> ident r" using nr by (metis imageI)
        then show "(ident x \<notin> insert (ident r) seen \<and> matches p (self x))
                   = (ident x \<notin> seen \<and> matches p (self x))"
          by simp
      qed
      have "insert (ident r) seen \<union> ident ` {x \<in> set rs. matches p (self x)}
            = seen \<union> ident ` {x \<in> set (r # rs). matches p (self x)}"
        using True by auto
      with True False f show ?thesis using Cons.IH [OF d] by simp
    next
      case nm: False
      then have "seen \<union> ident ` {x \<in> set (r # rs). matches p (self x)}
                 = seen \<union> ident ` {x \<in> set rs. matches p (self x)}"
        by auto
      with nm False show ?thesis using Cons.IH [OF d] by simp
    qed
  qed
qed

lemma select_items_result:
  assumes "distinct (map ident it)"
    and "seen = ident ` {r \<in> set it. \<exists>q\<in>set earlier. matches q (self r)}"
  shows "fst (select_items parse items it (results, seen))
         = results @ map Tag (selector_groups earlier (map parse items) it)"
  using assms(2)
proof (induction items arbitrary: results seen earlier)
  case Nil
  then show ?case by simp
next
  case (Cons item items)
  let ?p = "parse item"
  have inj: "inj_on ident (set it)"
    using assms(1) by (simp add: distinct_map)
  have unseen: "ident r \<notin> seen \<longleftrightarrow> list_all (\<lambda>q. \<not> matches q (self r)) earlier"
    if "r \<in> set it" for r
  proof -
    have "ident r \<in> seen \<longleftrightarrow> (\<exists>q\<in>set earlier. matches q (self r))"
      unfolding Cons.prems using that inj by (auto dest: inj_onD)
    then show ?thesis by (auto simp: list_all_iff)
  qed
  have f: "filter (\<lambda>r. ident r \<notin> seen \<and> matches ?p (self r)) it = group_matches earlier ?p it"
    unfolding group_matches_def using unseen by (intro filter_cong) auto
  have s: "seen \<union> ident ` {r \<in> set it. matches ?p (self r)}
           = ident ` {r \<in> set it. \<exists>q\<in>set (earlier @ [?p]). matches q (self r)}"
    unfolding Cons.prems by auto
  have "fst (select_items parse (item # items) it (results, seen))
        = fst (select_items parse items it
                 (results @ map Tag (group_matches earlier ?p it),
                  ident ` {r \<in> set it. \<exists>q\<in>set (earlier @ [?p]). matches q (self r)}))"
    by (simp add: select_nodes_result [OF assms(1)] f s)
  also have "\<dots> = (results @ map Tag (group_matches earlier ?p it))
                   @ map Tag (selector_groups (earlier @ [?p]) (map parse items) it)"
    by (rule Cons.IH) (rule refl)
  finally show ?case by simp
qed

text \<open>No loop ever appends a node that has been seen.\<close>

lemma select_nodes_distinct:
  assumes "distinct (map (\<lambda>t. ident (node_ref_of t)) results)"
    and "(\<lambda>t. ident (node_ref_of t)) ` set results \<subseteq> seen"
    and "select_nodes p it (results, seen) = (results', seen')"
  shows "distinct (map (\<lambda>t. ident (node_ref_of t)) results')
         \<and> (\<lambda>t. ident (node_ref_of t)) ` set results' \<subseteq> seen'"
  using assms
proof (induction it arbitrary: results seen)
  case Nil
  then show ?case by simp
next
  case (Cons r rs)
  show ?case
  proof (cases "ident r \<in> seen \<or> \<not> matches p (self r)")
    case True
    then have "select_nodes p rs (results, seen) = (results', seen')"
      using Cons.prems(3) by (auto split: if_splits)
    then show ?thesis using Cons.IH Cons.prems(1,2) by blast
  next
    case False
    then have "select_nodes p rs (results @ [Tag r], insert (ident r) seen) = (results', seen')"
      using Cons.prems(3) by simp
    moreover have "distinct (map (\<lambda>t. ident (node_ref_of t)) (results @ [Tag r]))"
      using Cons.prems(1,2) False by auto
    moreover have "(\<lambda>t. ident (node_ref_of t)) ` set (results @ [Tag r]) \<subseteq> insert (ident r) seen"
      using Cons.prems(2) by auto
    ultimately show ?thesis using Cons.IH by blast
  qed
qed

lemma select_items_distinct:
  assumes "distinct (map (\<lambda>t. ident (node_ref_of t)) results)"
    and "(\<lambda>t. ident (node_ref_of t)) ` set results \<subseteq> seen"
  shows "distinct (map (\<lambda>t. ident (node_ref_of t)) (fst (select_items parse items it (results, seen))))"
  using assms
proof (induction items arbitrary: results seen)
  case Nil
  then show ?case by simp
next
  case (Cons item items)
  obtain results' seen' where st: "select_nodes (parse item) it (results, seen) = (results', seen')"
    by (cases "select_nodes (parse item) it (results, seen)")
  from select_nodes_distinct [OF Cons.prems st]
  have "distinct (map (\<lambda>t. ident (node_ref_of t)) (fst (select_items parse items it (results', seen'))))"
    by (intro Cons.IH) auto
  then show ?case by (simp add: st)
qed

lemma set_selector_groups:
  "set (selector_groups earlier ps it)
   = {r \<in> set it. (\<exists>p\<in>set ps. matches p (self r)) \<and> (\<forall>q\<in>set earlier. \<not> matches q (self r))}"
proof (induction ps arbitrary: earlier)
  case Nil
  then show ?case by simp
next
  case (Cons p ps)
  show ?case
    unfolding selector_groups.simps set_append Cons.IH
    by (auto simp: group_matches_def list_all_iff)
qed

text \<open>
  C3. Let \<open>iterator\<close> be what \<open>select\<close> iterates over. It holds exactly the descendant
  elements of the document or tag, in document order. For a selector list with the
  compound selectors \<open>parsed\<close>, \<open>select\<close> returns first the nodes of \<open>iterator\<close> that the
  first selector matches, in that order, then for each later selector the nodes that it
  matches and no earlier selector matches; the result holds exactly the descendants
  matched by some selector, and no node twice.
\<close>

theorem select_groups_in_order:
  "select parse s sel
     = map Tag (selector_groups [] (map parse (selector_parts sel))
                  (iter_nodes (node_ref_of s) (is_BeautifulSoup s)))
   \<and> set (iter_nodes (node_ref_of s) (is_BeautifulSoup s))
       = descendants (node_ref_of s) (is_BeautifulSoup s)
   \<and> sorted_wrt doc_before (iter_nodes (node_ref_of s) (is_BeautifulSoup s))
   \<and> set (select parse s sel)
     = Tag ` {r \<in> descendants (node_ref_of s) (is_BeautifulSoup s).
               \<exists>p\<in>set (map parse (selector_parts sel)). matches p (self r)}
   \<and> distinct (map (\<lambda>t. ident (node_ref_of t)) (select parse s sel))
   \<and> distinct (select parse s sel)"
proof -
  let ?it = "iter_nodes (node_ref_of s) (is_BeautifulSoup s)"
  have d: "distinct (map ident ?it)" by (rule distinct_iter_nodes)
  have 1: "select parse s sel = map Tag (selector_groups [] (map parse (selector_parts sel)) ?it)"
    unfolding select_def
    using select_items_result [OF d, of "{}" "[]" parse "selector_parts sel" "[]"] by simp
  have 2: "distinct (map (\<lambda>t. ident (node_ref_of t)) (select parse s sel))"
    unfolding select_def by (rule select_items_distinct) simp_all
  have 3: "distinct (select parse s sel)"
    using 2 by (rule distinct_map [THEN iffD1, THEN conjunct1])
  have 5: "set ?it = descendants (node_ref_of s) (is_BeautifulSoup s)"
    by (rule set_iter_nodes)
  have 6: "sorted_wrt doc_before ?it"
    by (rule iter_sorted(1))
  have 4: "set (select parse s sel)
     = Tag ` {r \<in> descendants (node_ref_of s) (is_BeautifulSoup s).
               \<exists>p\<in>set (map parse (selector_parts sel)). matches p (self r)}"
    unfolding 1 set_map set_selector_groups 5 by simp
  from 1 2 3 4 5 6 show ?thesis by blast
qed

lemma a_b_doc_eval:
  "a_b_doc =
     BeautifulSoup (Ref (Node root_name []
       [Elem (Node (str ''a'') [] [Elem (Node (str ''b'') [] [])]),
        Elem (Node (str ''b'') [] [])]) 0 None)"
  by (simp add: a_b_doc_def query_eval builder_eval)

lemma selector_parts_b_a: "selector_parts (str ''b, a'') = [str ''b'', str ''a'']"
  by (simp add: selector_parts_def str_eval)

theorem select_groups_in_order_witness:
  "select parse_a_b a_b_doc (str ''b, a'')
     = [Tag (Ref (Node (str ''b'') [] []) 0
               (Some (Ref (Node (str ''a'') [] [Elem (Node (str ''b'') [] [])]) 0
                        (Some (node_ref_of a_b_doc))))),
        Tag (Ref (Node (str ''b'') [] []) 1 (Some (node_ref_of a_b_doc))),
        Tag (Ref (Node (str ''a'') [] [Elem (Node (str ''b'') [] [])]) 0
               (Some (node_ref_of a_b_doc)))]"
proof -
  have "map Tag (selector_groups [] (map parse_a_b (selector_parts (str ''b, a'')))
                  (iter_nodes (node_ref_of a_b_doc) (is_BeautifulSoup a_b_doc)))
     = [Tag (Ref (Node (str ''b'') [] []) 0
               (Some (Ref (Node (str ''a'') [] [Elem (Node (str ''b'') [] [])]) 0
                        (Some (node_ref_of a_b_doc))))),
        Tag (Ref (Node (str ''b'') [] []) 1 (Some (node_ref_of a_b_doc))),
        Tag (Ref (Node (str ''a'') [] [Elem (Node (str ''b'') [] [])]) 0
               (Some (node_ref_of a_b_doc)))]"
    unfolding selector_parts_b_a
    by (simp add: a_b_doc_eval parse_a_b_def no_constraints_def group_matches_def matches_def
        root_name_def lower_def str_def)
  then show ?thesis
    using select_groups_in_order [of parse_a_b a_b_doc "str ''b, a''"] by simp
qed

section \<open>The attrs accessor\<close>

text \<open>
  C8. \<open>Tag.attrs\<close> returns a dictionary object other than the one of the node, with the
  same items. Whatever change is then made to the returned dictionary, the dictionary of
  the node and every other dictionary that existed are as before, and a later read of
  \<open>attrs\<close> again gives the original items.
\<close>

theorem tag_attrs_is_a_copy:
  assumes "node_attrs < length st"
    and "tag_attrs st node_attrs = (d, st')"
  shows "d \<noteq> node_attrs \<and> st' ! d = st ! node_attrs
         \<and> mutate d f st' ! node_attrs = st ! node_attrs
         \<and> (\<forall>r < length st. mutate d f st' ! r = st ! r)
         \<and> snd (tag_attrs (mutate d f st') node_attrs)
             ! fst (tag_attrs (mutate d f st') node_attrs) = st ! node_attrs"
proof -
  have d: "d = length st" and st': "st' = st @ [st ! node_attrs]"
    using assms(2) by (auto simp: tag_attrs_def dict_copy_def)
  have old: "mutate d f st' ! r = st ! r" if "r < length st" for r
    using that by (simp add: mutate_def d st' nth_append)
  have "snd (tag_attrs (mutate d f st') node_attrs) ! fst (tag_attrs (mutate d f st') node_attrs)
        = mutate d f st' ! node_attrs"
    by (simp add: tag_attrs_def dict_copy_def)
  then show ?thesis
    using assms(1) old by (auto simp: d st')
qed

theorem tag_attrs_is_a_copy_witness:
  "tag_attrs one_dict 0 = (1, [[(str ''class'', str ''a'')], [(str ''class'', str ''a'')]])
   \<and> mutate 1 set_class_b (snd (tag_attrs one_dict 0))
       = [[(str ''class'', str ''a'')], [(str ''class'', str ''b'')]]
   \<and> mutate 1 set_class_b (snd (tag_attrs one_dict 0)) ! 0 = one_dict ! 0"
proof -
  have 1: "(0::nat) < length one_dict" by (simp add: one_dict_def)
  have 2: "tag_attrs one_dict 0 = (1, [[(str ''class'', str ''a'')], [(str ''class'', str ''a'')]])"
    by (simp add: tag_attrs_def dict_copy_def one_dict_def)
  have 3: "mutate 1 set_class_b [[(str ''class'', str ''a'')], [(str ''class'', str ''a'')]]
           = [[(str ''class'', str ''a'')], [(str ''class'', str ''b'')]]"
    by (simp add: mutate_def set_class_b_def)
  show ?thesis
    using tag_attrs_is_a_copy [OF 1 2, of set_class_b] 2 3 by simp
qed

section \<open>The normal form of clean\_text\<close>

lemma single_spaced_nospace: "w \<noteq> [] \<Longrightarrow> \<forall>c\<in>set w. \<not> is_space c \<Longrightarrow> single_spaced w"
  by (induction w rule: single_spaced.induct) auto

lemma single_spaced_prepend_word:
  "\<forall>c\<in>set w. \<not> is_space c \<Longrightarrow> single_spaced (w @ x # rest) = single_spaced (x # rest)"
proof (induction w)
  case Nil
  then show ?case by simp
next
  case (Cons c w)
  obtain d ds where "w @ x # rest = d # ds" by (cases w) auto
  with Cons show ?case by simp
qed

lemma normalized_word: "w \<noteq> [] \<Longrightarrow> \<forall>c\<in>set w. \<not> is_space c \<Longrightarrow> normalized w"
  by (cases w) (auto simp: normalized_def single_spaced_nospace)

lemma normalized_prepend_word:
  assumes "w \<noteq> []" and "\<forall>c\<in>set w. \<not> is_space c" and "normalized t"
  shows "normalized (w @ [32] @ t)"
proof -
  from assms(3) obtain d ds where t: "t = d # ds" and nd: "\<not> is_space d" and st: "single_spaced t"
    by (cases t) (auto simp: normalized_def)
  have "single_spaced (32 # t)" using t nd st by simp
  then have "single_spaced (w @ 32 # t)"
    using assms(2) by (simp add: single_spaced_prepend_word)
  moreover have "\<not> is_space (hd (w @ 32 # t))" using assms(1,2) by (cases w) auto
  ultimately show ?thesis by (simp add: normalized_def)
qed

lemma normalized_join:
  "ws \<noteq> [] \<Longrightarrow> \<forall>w\<in>set ws. w \<noteq> [] \<and> (\<forall>c\<in>set w. \<not> is_space c) \<Longrightarrow> normalized (join [32] ws)"
proof (induction "[32::nat]" ws rule: join.induct)
  case 1
  then show ?case by simp
next
  case (2 w)
  then show ?case by (simp add: normalized_word)
next
  case (3 w v ws)
  then have t: "normalized (join [32] (v # ws))" by simp
  have w: "w \<noteq> []" "\<forall>c\<in>set w. \<not> is_space c" using 3 by auto
  have "normalized (w @ [32] @ join [32] (v # ws))"
    by (rule normalized_prepend_word [OF w t])
  then show ?case by simp
qed

lemma cleaned_clean_text: "cleaned (clean_text v)"
proof (cases v)
  case None
  then show ?thesis by (simp add: clean_text_def cleaned_def)
next
  case (Some s)
  let ?ws = "split_ws (strip s)"
  show ?thesis
  proof (cases "s = [] \<or> join (str '' '') ?ws = []")
    case True
    then show ?thesis using Some by (auto simp: clean_text_def cleaned_def Let_def)
  next
    case False
    then have ne: "?ws \<noteq> []" by auto
    have "normalized (join [32] ?ws)"
      by (rule normalized_join [OF ne]) (use split_ws_words in blast)
    moreover have "str '' '' = [32]" by (simp add: str_def)
    ultimately show ?thesis
      using Some False by (simp add: clean_text_def cleaned_def Let_def)
  qed
qed

lemma cleaned_unknown: "cleaned unknown"
  by (simp add: cleaned_def)

section \<open>extract\_listing\<close>

lemma safe_label_is: "safe_name (NameCallable (label_is label))"
  by (simp add: safe_name_def label_is_def)

lemma safe_price_candidates: "\<forall>c\<in>set price_candidates. safe_name (fst c) \<and> safe_attrs (snd c)"
  by (simp add: price_candidates_def safe_name_def safe_attrs_def safe_attr_def price_class_def)

lemma safe_attrs_value: "safe_attrs (Some [(k, AttrValue v)])"
  by (simp add: safe_attrs_def safe_attr_def)

lemma safe_attrs_price_class: "safe_attrs (Some [(k, AttrCallable price_class)])"
  by (simp add: safe_attrs_def safe_attr_def price_class_def)

lemmas safe_filters = safe_name_simps safe_attrs_None safe_label_is safe_attrs_value
  safe_attrs_price_class

lemma extract_title_cleaned: "\<exists>t. extract_title sp = Inr t \<and> cleaned t"
  by (auto simp: extract_title_def find_first_total safe_filters bind_def cleaned_clean_text
      split: list.splits option.splits)

lemma price_loop_cleaned:
  "\<forall>c\<in>set cands. safe_name (fst c) \<and> safe_attrs (snd c) \<Longrightarrow>
   \<exists>p. price_loop sp cands = Inr p \<and> cleaned p"
proof (induction cands)
  case Nil
  then show ?case by (simp add: cleaned_unknown)
next
  case (Cons c cands)
  obtain nm at where c: "c = (nm, at)" by (cases c)
  have safe: "safe_name nm" "safe_attrs at" using Cons.prems c by auto
  have rest: "\<exists>p. price_loop sp cands = Inr p \<and> cleaned p"
    using Cons by simp
  show ?case
    using rest unfolding c
    by (cases "passing sp nm at")
       (simp_all add: find_first_total [OF safe] bind_def cleaned_clean_text)
qed

lemma extract_price_cleaned: "\<exists>p. extract_price sp = Inr p \<and> cleaned p"
  unfolding extract_price_def by (rule price_loop_cleaned) (rule safe_price_candidates)

lemma shipping_label_loop_cleaned:
  "shipping_label_loop sp labels = Inr None
   \<or> (\<exists>v. shipping_label_loop sp labels = Inr (Some v) \<and> cleaned v)"
proof (induction labels)
  case Nil
  then show ?case by simp
next
  case (Cons label labels)
  show ?case
  proof (cases "passing sp (NameCallable (label_is label)) None")
    case Nil
    then show ?thesis using Cons by (simp add: find_first_total safe_filters bind_def)
  next
    case (Cons r rest)
    then show ?thesis
      using Cons.IH
      by (cases "next_sibling (Tag r)")
         (simp_all add: find_first_total safe_filters bind_def cleaned_clean_text)
  qed
qed

lemma shipping_candidates_cleaned: "cleaned (shipping_candidates ts)"
  by (induction ts) (simp_all add: cleaned_unknown cleaned_clean_text Let_def)

lemma extract_shipping_cleaned: "\<exists>s. extract_shipping parse sp = Inr s \<and> cleaned s"
  using shipping_label_loop_cleaned [of sp shipping_labels]
  by (auto simp: extract_shipping_def bind_def shipping_candidates_cleaned)

lemma ensure_absolute_url_total: "\<exists>u. ensure_absolute_url src sp = Inr u"
proof (cases "passing sp (NameStr (str ''base'')) None")
  case Nil
  then show ?thesis
    by (simp add: ensure_absolute_url_def find_first_total safe_filters bind_def Let_def)
next
  case (Cons r rest)
  show ?thesis
  proof (cases "dict_get (attrs (self r)) (str ''href'')")
    case None
    then show ?thesis
      using Cons
      by (simp add: ensure_absolute_url_def find_first_total safe_filters bind_def Let_def
          has_attr_def)
  next
    case (Some v)
    then show ?thesis
      using Cons
      by (simp add: ensure_absolute_url_def find_first_total safe_filters bind_def Let_def
          has_attr_def getitem_def)
  qed
qed

lemma gallery_imgs_total: "\<exists>ph. gallery_imgs sp imgs acc = Inr ph"
proof (induction imgs arbitrary: acc)
  case Nil
  then show ?case by simp
next
  case (Cons img imgs)
  let ?src = "py_or (py_or (tag_get img (str ''src'')) (tag_get img (str ''data-src'')))
                    (tag_get img (str ''data-lazy''))"
  obtain u where u: "ensure_absolute_url (the ?src) sp = Inr u"
    using ensure_absolute_url_total by blast
  show ?case
    using Cons [of acc] Cons [of "acc @ [u]"] u by (simp add: Let_def bind_def)
qed

lemma gallery_loop_total: "\<exists>ph. gallery_loop parse sp sels acc = Inr ph"
proof (induction sels arbitrary: acc)
  case Nil
  then show ?case by simp
next
  case (Cons sel sels)
  show ?case
  proof (cases "select_one parse sp sel")
    case None
    then show ?thesis using Cons by simp
  next
    case (Some container)
    obtain ph where ph: "gallery_imgs sp (map Tag (passing container (NameStr (str ''img'')) None)) acc
                         = Inr ph"
      using gallery_imgs_total by blast
    show ?thesis
    proof (cases "ph = []")
      case True
      then show ?thesis
        using Some ph Cons [of "[]"] by (simp add: find_all_total safe_filters bind_def)
    next
      case False
      then show ?thesis
        using Some ph by (simp add: find_all_total safe_filters bind_def)
    qed
  qed
qed

lemma fallback_imgs_total: "\<exists>ph. fallback_imgs sp imgs acc = Inr ph"
proof (induction imgs arbitrary: acc)
  case Nil
  then show ?case by simp
next
  case (Cons img imgs)
  obtain u where u: "ensure_absolute_url (the (tag_get img (str ''src''))) sp = Inr u"
    using ensure_absolute_url_total by blast
  show ?case
    using Cons [of acc] Cons [of "acc @ [u]"] u by (simp add: bind_def)
qed

lemma extract_photos_total: "\<exists>ph. extract_photos parse sp = Inr ph"
proof -
  obtain acc where acc: "gallery_loop parse sp gallery_selectors [] = Inr acc"
    using gallery_loop_total by blast
  obtain ph where "fallback_imgs sp (map Tag (passing sp (NameStr (str ''img'')) None)) acc = Inr ph"
    using fallback_imgs_total by blast
  then show ?thesis
    using acc by (auto simp: extract_photos_def bind_def find_all_total safe_filters)
qed

lemma extract_listing_document:
  assumes "fetch_html url = Inr sp"
  shows "\<exists>l. extract_listing fetch_html parse url = Inr l
             \<and> cleaned (title l) \<and> cleaned (price l) \<and> cleaned (shipping l)"
proof -
  obtain t where t: "extract_title sp = Inr t" "cleaned t"
    using extract_title_cleaned by blast
  obtain p where p: "extract_price sp = Inr p" "cleaned p"
    using extract_price_cleaned by blast
  obtain s where s: "extract_shipping parse sp = Inr s" "cleaned s"
    using extract_shipping_cleaned by blast
  obtain ph where ph: "extract_photos parse sp = Inr ph"
    using extract_photos_total by blast
  show ?thesis
    using assms t p s ph by (simp add: extract_listing_def bind_def)
qed

text \<open>
  C10. Whatever \<open>fetch_html\<close> returns, if \<open>extract_listing\<close> returns a listing then each
  of its title, price and shipping values is the placeholder or a non-empty string without
  whitespace at its ends whose whitespace characters are single spaces between other
  characters; and \<open>extract_listing\<close> does return a listing when \<open>fetch_html\<close> returns a
  document or raises \<open>FetchError\<close>.
\<close>

theorem extract_listing_cleaned:
  "(extract_listing fetch_html parse url = Inr l \<longrightarrow>
      cleaned (title l) \<and> cleaned (price l) \<and> cleaned (shipping l))
   \<and> ((\<forall>e. fetch_html url = Inl e \<longrightarrow> e = FetchError) \<longrightarrow>
        (\<exists>l'. extract_listing fetch_html parse url = Inr l'))"
proof -
  have 1: "cleaned (title l) \<and> cleaned (price l) \<and> cleaned (shipping l)"
    if r: "extract_listing fetch_html parse url = Inr l"
  proof (cases "fetch_html url")
    case (Inl e)
    then have "l = \<lparr>title = unknown, price = unknown, shipping = unknown, photos = [],
                    description_html = unknown\<rparr>"
      using r by (auto simp: extract_listing_def split: if_splits)
    then show ?thesis by (simp add: cleaned_unknown)
  next
    case (Inr sp)
    from extract_listing_document [of fetch_html url sp parse] Inr r show ?thesis by auto
  qed
  have 2: "\<exists>l'. extract_listing fetch_html parse url = Inr l'"
    if a: "\<forall>e. fetch_html url = Inl e \<longrightarrow> e = FetchError"
  proof (cases "fetch_html url")
    case (Inl e)
    then have "e = FetchError" using a by simp
    then show ?thesis using Inl by (simp add: extract_listing_def)
  next
    case (Inr sp)
    from extract_listing_document [of fetch_html url sp parse] Inr show ?thesis by blast
  qed
  from 1 2 show ?thesis by blast
qed

lemmas kpi_eval = extract_listing_def extract_title_def extract_price_def price_candidates_def
  price_class_def extract_shipping_def shipping_labels_def label_is_def extract_photos_def
  gallery_selectors_def extract_description_def description_candidates_def select_one_def
  select_def selector_parts_def get_text_def matches_def dict_get_def no_constraints_def
  passing_def name_matches_def attrs_match_def attr_matches_def

lemma sample_doc_eval:
  "sample_doc =
     BeautifulSoup (Ref (Node root_name []
       [Elem (Node (str ''h1'') [] [Text (str '' RAYS  TE37 '')]),
        Elem (Node (str ''div'') [(str ''class'', str ''ProductPrice'')] [Text (str ''120000'')]),
        Elem (Node (str ''div'') [(str ''class'', str ''ProductDetail__shipping'')]
                [Text (str ''free  shipping'')])]) 0 None)"
  by (simp add: sample_doc_def sample_events_def query_eval builder_eval)

lemma sample_title: "extract_title sample_doc = Inr (str ''RAYS TE37'')"
  unfolding extract_title_def
  by (simp add: find_first_total safe_filters sample_doc_eval bind_def kpi_eval str_eval root_name_def lower_def)

lemma sample_price: "extract_price sample_doc = Inr (str ''120000'')"
  unfolding extract_price_def price_candidates_def price_loop.simps
  by (simp add: find_first_total safe_filters sample_doc_eval bind_def kpi_eval str_eval root_name_def lower_def)

lemma sample_shipping: "extract_shipping kpi_parse sample_doc = Inr (str ''free shipping'')"
  unfolding extract_shipping_def shipping_labels_def shipping_label_loop.simps
  by (simp add: find_first_total safe_filters sample_doc_eval bind_def kpi_eval kpi_parse_def str_eval root_name_def lower_def)

lemma sample_photos: "extract_photos kpi_parse sample_doc = Inr []"
  unfolding extract_photos_def gallery_selectors_def gallery_loop.simps
  by (simp add: find_all_total safe_filters sample_doc_eval bind_def kpi_eval kpi_parse_def str_eval root_name_def lower_def)

lemma sample_description: "extract_description kpi_parse sample_doc = unknown"
  unfolding extract_description_def description_candidates_def description_loop.simps
  by (simp add: sample_doc_eval kpi_eval kpi_parse_def str_eval root_name_def lower_def)

lemma sample_listing:
  "extract_listing sample_fetch kpi_parse (str ''sample'')
     = Inr \<lparr>title = str ''RAYS TE37'', price = str ''120000'', shipping = str ''free shipping'',
            photos = [], description_html = unknown\<rparr>"
  by (simp add: extract_listing_def sample_fetch_def bind_def sample_title sample_price
      sample_shipping sample_photos sample_description)

theorem extract_listing_cleaned_witness:
  "extract_listing sample_fetch kpi_parse (str ''sample'')
     = Inr \<lparr>title = str ''RAYS TE37'', price = str ''120000'', shipping = str ''free shipping'',
            photos = [], description_html = unknown\<rparr>
   \<and> cleaned (str ''RAYS TE37'') \<and> cleaned (str ''120000'') \<and> cleaned (str ''free shipping'')
   \<and> (\<exists>l. extract_listing sample_fetch kpi_parse (str ''elsewhere'') = Inr l)"
proof -
  have only: "\<forall>e. sample_fetch (str ''elsewhere'') = Inl e \<longrightarrow> e = FetchError"
    by (simp add: sample_fetch_def)
  show ?thesis
    using extract_listing_cleaned [of sample_fetch kpi_parse "str ''sample''"
        "\<lparr>title = str ''RAYS TE37'', price = str ''120000'', shipping = str ''free shipping'',
          photos = [], description_html = unknown\<rparr>"]
      extract_listing_cleaned [of sample_fetch kpi_parse "str ''elsewhere''"]
      sample_listing only
    by simp
qed

end
